theory Spec2Isabelle
  imports Complex_Main "HOL-Library.Sublist" "HOL-Library.List_Lexorder" "HOL-Library.Char_ord"
    "HOL-Library.AList"
begin

section \<open>The chunked structured-extraction service (server/crawl4ai\_service/main.py)\<close>

text \<open>
  Conventions of the embedding.
  \<^item> A Python \<open>str\<close> is a list of characters. \<open>chunk_text\<close> is polymorphic in the
    character type; the functions that look at particular characters use \<open>string\<close>,
    whose characters are the code points 0..255.
  \<^item> A Python \<open>int\<close> is an \<open>int\<close>.
  \<^item> A \<open>while\<close> loop whose termination is not evident from its text is a
    \<open>partial_function (option)\<close>: \<open>None\<close> is "does not return".
\<close>

subsection \<open>Slicing\<close>

text \<open>
  \<open>xs[i:j]\<close> for integers \<open>i\<close>, \<open>j\<close>: a negative index counts from the end, both
  indices are clamped to \<open>0..len(xs)\<close>, and the slice is empty when the clamped bounds
  cross.
\<close>

definition py_slice :: "'a list \<Rightarrow> int \<Rightarrow> int \<Rightarrow> 'a list" where
  "py_slice xs i j =
     (let n = int (length xs);
          lo = (if i < 0 then max 0 (i + n) else min i n);
          hi = (if j < 0 then max 0 (j + n) else min j n)
      in take (nat (hi - lo)) (drop (nat lo) xs))"

subsection \<open>TextChunker: \<open>chunk_text\<close> (lines 77--90)\<close>

text \<open>
  The loop of \<open>chunk_text\<close>, with the loop variables \<open>start\<close> and \<open>chunks\<close> as
  arguments. \<open>step\<close> is an argument too: the loop itself does not know that it is
  positive.
\<close>

partial_function (option) chunk_loop ::
  "'a list \<Rightarrow> int \<Rightarrow> int \<Rightarrow> int \<Rightarrow> 'a list list \<Rightarrow> 'a list list option" where
  "chunk_loop text window step start chunks =
     (let n = int (length text) in
      if start < n then
        (let stop = min n (start + window);
             chunks' = chunks @ [py_slice text start stop]
         in if stop \<ge> n then Some chunks'
            else chunk_loop text window step (start + step) chunks')
      else Some chunks)"

declare chunk_loop.simps [code]

definition chunk_text :: "'a list \<Rightarrow> int \<Rightarrow> int \<Rightarrow> 'a list list option" where
  "chunk_text text window overlap =
     (if window \<le> 0 then Some [text]
      else chunk_loop text window (max 1 (window - overlap)) 0 [])"

subsection \<open>Exceptions\<close>

text \<open>
  A raised exception is a value. \<open>except Exception\<close> catches the instances of the
  classes that derive from \<open>Exception\<close>; \<open>KeyboardInterrupt\<close>, \<open>SystemExit\<close> and
  \<open>asyncio.CancelledError\<close> derive from \<open>BaseException\<close> only and pass through it.
  The string is the class name.
\<close>

datatype py_exn = Exception string | BaseExceptionOnly string

fun is_Exception :: "py_exn \<Rightarrow> bool" where
  "is_Exception (Exception _) = True"
| "is_Exception (BaseExceptionOnly _) = False"

subsection \<open>JSON values and rows\<close>

text \<open>
  The values \<open>json.loads\<close> returns. A \<open>dict\<close> is an association list in insertion
  order, with distinct keys. A \<open>float\<close> is held as the text \<open>float.__repr__\<close> prints for
  it (\<open>NaN\<close>, \<open>Infinity\<close>, \<open>-Infinity\<close> for the three special values, as \<open>json.dumps\<close>
  writes them): floating-point arithmetic itself is not modelled.
\<close>

datatype json =
    JNull
  | JBool bool
  | JInt int
  | JFloat string
  | JStr string
  | JArr "json list"
  | JObj "(string \<times> json) list"

type_synonym row = "(string \<times> json) list"

subsection \<open>ResultParser: \<open>extract_json_candidates\<close> (lines 110--119)\<close>

text \<open>
  \<open>\s\<close> in a \<open>str\<close> pattern, on the code points below 256: the ASCII white space
  (9--13, 28--32), NEL (133) and the no-break space (160).
\<close>

definition is_space :: "char \<Rightarrow> bool" where
  "is_space c = ((of_char c :: nat) \<in> {9, 10, 11, 12, 13, 28, 29, 30, 31, 32, 133, 160})"

text \<open>The text before the first \<open>```\<close> and the text after it: the lazy \<open>(.*?)```\<close>.\<close>

fun find_fence :: "string \<Rightarrow> (string \<times> string) option" where
  "find_fence [] = None"
| "find_fence (c # cs) =
     (if take 3 (c # cs) = ''```'' then Some ([], drop 3 (c # cs))
      else (case find_fence cs of None \<Rightarrow> None | Some (cap, rest) \<Rightarrow> Some (c # cap, rest)))"

text \<open>
  \<open>```json\s*\<close> at the head of the text, ignoring case: what follows the white space.
  Below 256 only the ASCII letters match \<open>j\<close>, \<open>s\<close>, \<open>o\<close>, \<open>n\<close> without regard to case.
\<close>

definition match_fence_open :: "string \<Rightarrow> string option" where
  "match_fence_open s =
     (if take 3 s = ''```''
         \<and> list_all2 (\<lambda>c l. c = fst l \<or> c = snd l) (take 4 (drop 3 s))
               [(CHR ''j'', CHR ''J''), (CHR ''s'', CHR ''S''), (CHR ''o'', CHR ''O''), (CHR ''n'', CHR ''N'')]
      then Some (dropWhile is_space (drop 7 s)) else None)"

text \<open>
  \<open>re.findall(r"```json\s*(.*?)```", text, DOTALL | IGNORECASE)\<close>: the leftmost match
  is tried at every position in turn; after a match the search goes on behind it; the
  result is the captured group of every match.
\<close>

function findall_code_blocks :: "string \<Rightarrow> string list" where
  "findall_code_blocks [] = []"
| "findall_code_blocks (c # cs) =
     (case match_fence_open (c # cs) of
        None \<Rightarrow> findall_code_blocks cs
      | Some body \<Rightarrow>
          (case find_fence body of
             None \<Rightarrow> findall_code_blocks cs
           | Some (cap, rest) \<Rightarrow> cap # findall_code_blocks rest))"
  by pat_completeness auto
termination
proof (relation "measure length")
  show "wf (measure length)" by simp
next
  fix c :: char and cs show "(cs, c # cs) \<in> measure length" by simp
next
  fix c :: char and cs body show "(cs, c # cs) \<in> measure length" by simp
next
  fix c :: char and cs body x cap rest
  assume op: "match_fence_open (c # cs) = Some body"
    and cl: "find_fence body = Some x" and x: "(cap, rest) = x"
  have fence: "length r < length s" if "find_fence s = Some (a, r)" for s a r
    using that
  proof (induction s arbitrary: a)
    case Nil
    then show ?case by simp
  next
    case (Cons d ds)
    then show ?case by (auto split: if_splits option.splits)
  qed
  have "body = dropWhile is_space (drop 7 (c # cs))"
    using op by (simp add: match_fence_open_def split: if_splits)
  then have "length body \<le> length (c # cs)"
    using length_dropWhile_le [of is_space "drop 7 (c # cs)"] by simp
  moreover have "length rest < length body" using fence cl x by auto
  ultimately show "(rest, c # cs) \<in> measure length" by simp
qed

text \<open>
  \<open>re.findall(r"\[(?:.|\n)*?\]", text, DOTALL)\<close> and the same with braces: a match
  starts at an opening delimiter that has a closing one somewhere behind it and ends at
  the first closing one; the search goes on behind the match. The last argument is the
  match in progress.
\<close>

fun findall_delimited :: "char \<Rightarrow> char \<Rightarrow> string \<Rightarrow> string option \<Rightarrow> string list" where
  "findall_delimited opn cls [] cur = []"
| "findall_delimited opn cls (c # cs) None =
     (if c = opn \<and> cls \<in> set cs then findall_delimited opn cls cs (Some [c])
      else findall_delimited opn cls cs None)"
| "findall_delimited opn cls (c # cs) (Some m) =
     (if c = cls then (m @ [c]) # findall_delimited opn cls cs None
      else findall_delimited opn cls cs (Some (m @ [c])))"

definition extract_json_candidates :: "string \<Rightarrow> string list" where
  "extract_json_candidates text =
     (let code_blocks = findall_code_blocks text;
          arrays = findall_delimited (CHR ''['') (CHR '']'') text None;
          objects = findall_delimited (CHR ''{'') (CHR ''}'') text None
      in code_blocks @ arrays @ objects)"

subsection \<open>ResultParser: \<open>safe_parse_rows\<close> (lines 122--134)\<close>

text \<open>\<open>[x for x in xs if isinstance(x, dict)]\<close>\<close>

fun dicts_of :: "json list \<Rightarrow> row list" where
  "dicts_of [] = []"
| "dicts_of (JObj kvs # xs) = kvs # dicts_of xs"
| "dicts_of (_ # xs) = dicts_of xs"

text \<open>
  \<open>json.loads\<close> is the library's; it is the parameter \<open>loads\<close>, which returns a value
  or raises. The inner \<open>case\<close> is the body of the \<open>try\<close>: \<open>Some rows\<close> is a
  \<open>return rows\<close>, \<open>None\<close> is falling out of the \<open>try\<close> to the final \<open>return []\<close>.
\<close>

definition safe_parse_rows :: "(string \<Rightarrow> py_exn + json) \<Rightarrow> string \<Rightarrow> py_exn + row list" where
  "safe_parse_rows loads text =
     (case (case loads text of
              Inl e \<Rightarrow> Inl e
            | Inr (JArr xs) \<Rightarrow> Inr (Some (dicts_of xs))
            | Inr (JObj kvs) \<Rightarrow>
                (case map_of kvs ''rows'' of
                   Some (JArr xs) \<Rightarrow> Inr (Some (dicts_of xs))
                 | _ \<Rightarrow> Inr None)
            | Inr _ \<Rightarrow> Inr None) of
        Inr (Some rs) \<Rightarrow> Inr rs
      | Inr None \<Rightarrow> Inr []
      | Inl e \<Rightarrow> if is_Exception e then Inr [] else Inl e)"

subsection \<open>ResultParser: the parse of a model reply (lines 179--189 of \<open>call_openai_extract\<close>)\<close>

fun first_rows :: "(string \<Rightarrow> py_exn + json) \<Rightarrow> string list \<Rightarrow> py_exn + row list" where
  "first_rows loads [] = Inr []"
| "first_rows loads (cand # cands) =
     (case safe_parse_rows loads cand of
        Inl e \<Rightarrow> Inl e
      | Inr rs \<Rightarrow> if rs \<noteq> [] then Inr rs else first_rows loads cands)"

definition parse_reply :: "(string \<Rightarrow> py_exn + json) \<Rightarrow> string \<Rightarrow> py_exn + row list" where
  "parse_reply loads text =
     (case safe_parse_rows loads text of
        Inl e \<Rightarrow> Inl e
      | Inr rs \<Rightarrow> if rs \<noteq> [] then Inr rs else first_rows loads (extract_json_candidates text))"

subsection \<open>A model of \<open>json.loads\<close>, for evaluating the parser on concrete replies\<close>

text \<open>
  The properties below are proved for every \<open>loads\<close>. To run the parser on a concrete
  reply, \<open>py_json_loads\<close> models the standard library's decoder (\<open>json.decoder\<close>,
  \<open>json.scanner\<close>) on texts over the code points 0..255: white space is blank, tab,
  line feed and carriage return; strings are strict (no raw control character); the
  constants \<open>NaN\<close>, \<open>Infinity\<close> and \<open>-Infinity\<close> are accepted; a repeated key keeps its
  first position and its last value. The scanners return the class name of the
  exception they raise. Two things are outside the model and reported as exceptions of
  their own: a \<open>\u\<close> escape for a code point above 255, which has no
  character in \<open>string\<close>, and running out of \<open>fuel\<close>, the bound on the number of calls
  that makes the recursion structural. The conversion of a float literal to the
  \<open>repr\<close> of the double it denotes is the parameter \<open>parse_float\<close>.
\<close>

definition JSONDecodeError :: "string + 'a" where
  "JSONDecodeError = Inl ''JSONDecodeError''"

definition json_ws :: "char \<Rightarrow> bool" where
  "json_ws c = (c = CHR '' '' \<or> c = CHR 0x09 \<or> c = CHR 0x0A \<or> c = CHR 0x0D)"

definition is_digit :: "char \<Rightarrow> bool" where
  "is_digit c = (CHR ''0'' \<le> c \<and> c \<le> CHR ''9'')"

definition digit_val :: "char \<Rightarrow> nat" where
  "digit_val c = of_char c - of_char (CHR ''0'')"

definition hex_val :: "char \<Rightarrow> nat option" where
  "hex_val c =
     (if is_digit c then Some (digit_val c)
      else if CHR ''a'' \<le> c \<and> c \<le> CHR ''f'' then Some (of_char c - of_char (CHR ''a'') + 10)
      else if CHR ''A'' \<le> c \<and> c \<le> CHR ''F'' then Some (of_char c - of_char (CHR ''A'') + 10)
      else None)"

definition unescape :: "char \<Rightarrow> char option" where
  "unescape c =
     (if c = CHR 0x22 \<or> c = CHR 0x5C \<or> c = CHR ''/'' then Some c
      else if c = CHR ''b'' then Some (CHR 0x08)
      else if c = CHR ''f'' then Some (CHR 0x0C)
      else if c = CHR ''n'' then Some (CHR 0x0A)
      else if c = CHR ''r'' then Some (CHR 0x0D)
      else if c = CHR ''t'' then Some (CHR 0x09)
      else None)"

text \<open>The text behind an opening quote: the decoded string and what follows its closing quote.\<close>

fun scanstring :: "string \<Rightarrow> string + string \<times> string" where
  "scanstring [] = JSONDecodeError"
| "scanstring (c # cs) =
     (if c = CHR 0x22 then Inr ([], cs)
      else if c = CHR 0x5C then
        (case cs of
           [] \<Rightarrow> JSONDecodeError
         | e # es \<Rightarrow>
             if e = CHR ''u'' then
               (case es of
                  h1 # h2 # h3 # h4 # rest \<Rightarrow>
                    (case (hex_val h1, hex_val h2, hex_val h3, hex_val h4) of
                       (Some a, Some b, Some c, Some d) \<Rightarrow>
                         if a = 0 \<and> b = 0 then
                           (case scanstring rest of
                              Inl x \<Rightarrow> Inl x
                            | Inr (str, r) \<Rightarrow> Inr (char_of (16 * c + d) # str, r))
                         else Inl ''code point above 255''
                     | _ \<Rightarrow> JSONDecodeError)
                | _ \<Rightarrow> JSONDecodeError)
             else
               (case unescape e of
                  None \<Rightarrow> JSONDecodeError
                | Some ch \<Rightarrow>
                    (case scanstring es of
                       Inl x \<Rightarrow> Inl x
                     | Inr (str, r) \<Rightarrow> Inr (ch # str, r))))
      else if (of_char c :: nat) < 32 then JSONDecodeError
      else (case scanstring cs of
              Inl x \<Rightarrow> Inl x
            | Inr (str, r) \<Rightarrow> Inr (c # str, r)))"

definition nat_of_digits :: "string \<Rightarrow> nat" where
  "nat_of_digits ds = foldl (\<lambda>n d. 10 * n + digit_val d) 0 ds"

text \<open>
  \<open>NUMBER_RE = (-?(?:0|[1-9]\d*))(\.\d+)?([eE][-+]?\d+)?\<close> at the head of the text:
  the three groups and the rest, or \<open>None\<close> when the integer part does not match.
\<close>

definition match_number :: "string \<Rightarrow> (string \<times> string \<times> string \<times> string) option" where
  "match_number s =
     (let (sign, s1) = (case s of c # cs \<Rightarrow> if c = CHR ''-'' then ([c], cs) else ([], s) | [] \<Rightarrow> ([], s))
      in case s1 of
           [] \<Rightarrow> None
         | c # cs \<Rightarrow>
             if \<not> is_digit c then None
             else
               (let (ds, s2) = (if c = CHR ''0'' then ([c], cs)
                                else (takeWhile is_digit s1, dropWhile is_digit s1));
                    (fr, s3) =
                      (case s2 of
                         p # q # r \<Rightarrow>
                           if p = CHR ''.'' \<and> is_digit q
                           then (p # takeWhile is_digit (q # r), dropWhile is_digit (q # r))
                           else ([], s2)
                       | _ \<Rightarrow> ([], s2));
                    (ex, s4) =
                      (case s3 of
                         e # r \<Rightarrow>
                           if e = CHR ''e'' \<or> e = CHR ''E'' then
                             (let (sg, r') = (case r of
                                                g # r' \<Rightarrow> if g = CHR ''-'' \<or> g = CHR ''+''
                                                           then ([g], r') else ([], r)
                                              | [] \<Rightarrow> ([], r))
                              in case r' of
                                   d # _ \<Rightarrow>
                                     if is_digit d
                                     then (e # sg @ takeWhile is_digit r', dropWhile is_digit r')
                                     else ([], s3)
                                 | [] \<Rightarrow> ([], s3))
                           else ([], s3)
                       | [] \<Rightarrow> ([], s3))
                in Some (sign @ ds, fr, ex, s4)))"

definition int_of_literal :: "string \<Rightarrow> int" where
  "int_of_literal s =
     (case s of
        c # cs \<Rightarrow> if c = CHR ''-'' then - int (nat_of_digits cs) else int (nat_of_digits s)
      | [] \<Rightarrow> 0)"

definition scan_atom :: "(string \<Rightarrow> string) \<Rightarrow> string \<Rightarrow> string + json \<times> string" where
  "scan_atom parse_float s =
     (if take 4 s = ''null'' then Inr (JNull, drop 4 s)
      else if take 4 s = ''true'' then Inr (JBool True, drop 4 s)
      else if take 5 s = ''false'' then Inr (JBool False, drop 5 s)
      else
        (case match_number s of
           Some (ip, fr, ex, rest) \<Rightarrow>
             if fr \<noteq> [] \<or> ex \<noteq> [] then Inr (JFloat (parse_float (ip @ fr @ ex)), rest)
             else Inr (JInt (int_of_literal ip), rest)
         | None \<Rightarrow>
             if take 3 s = ''NaN'' then Inr (JFloat ''NaN'', drop 3 s)
             else if take 8 s = ''Infinity'' then Inr (JFloat ''Infinity'', drop 8 s)
             else if take 9 s = ''-Infinity'' then Inr (JFloat ''-Infinity'', drop 9 s)
             else JSONDecodeError))"

fun scan_once :: "nat \<Rightarrow> (string \<Rightarrow> string) \<Rightarrow> string \<Rightarrow> string + json \<times> string"
  and scan_array :: "nat \<Rightarrow> (string \<Rightarrow> string) \<Rightarrow> string \<Rightarrow> json list \<Rightarrow> string + json \<times> string"
  and scan_object :: "nat \<Rightarrow> (string \<Rightarrow> string) \<Rightarrow> string \<Rightarrow> (string \<times> json) list \<Rightarrow> string + json \<times> string"
where
  "scan_once 0 pf s = Inl ''out of fuel''"
| "scan_once (Suc n) pf s =
     (case s of
        [] \<Rightarrow> JSONDecodeError
      | c # cs \<Rightarrow>
          if c = CHR 0x22 then
            (case scanstring cs of Inl x \<Rightarrow> Inl x | Inr (str, r) \<Rightarrow> Inr (JStr str, r))
          else if c = CHR ''{'' then
            (case dropWhile json_ws cs of
               [] \<Rightarrow> JSONDecodeError
             | d # r \<Rightarrow> if d = CHR ''}'' then Inr (JObj [], r) else scan_object n pf (d # r) [])
          else if c = CHR ''['' then
            (case dropWhile json_ws cs of
               [] \<Rightarrow> JSONDecodeError
             | d # r \<Rightarrow> if d = CHR '']'' then Inr (JArr [], r) else scan_array n pf (d # r) [])
          else scan_atom pf s)"
| "scan_array 0 pf s acc = Inl ''out of fuel''"
| "scan_array (Suc n) pf s acc =
     (case scan_once n pf s of
        Inl x \<Rightarrow> Inl x
      | Inr (v, r) \<Rightarrow>
          (case dropWhile json_ws r of
             [] \<Rightarrow> JSONDecodeError
           | d # r' \<Rightarrow>
               if d = CHR '']'' then Inr (JArr (acc @ [v]), r')
               else if d = CHR '','' then scan_array n pf (dropWhile json_ws r') (acc @ [v])
               else JSONDecodeError))"
| "scan_object 0 pf s acc = Inl ''out of fuel''"
| "scan_object (Suc n) pf s acc =
     (case s of
        [] \<Rightarrow> JSONDecodeError
      | q # cs \<Rightarrow>
          if q \<noteq> CHR 0x22 then JSONDecodeError
          else
            (case scanstring cs of
               Inl x \<Rightarrow> Inl x
             | Inr (k, r) \<Rightarrow>
                 (case dropWhile json_ws r of
                    [] \<Rightarrow> JSONDecodeError
                  | colon # r1 \<Rightarrow>
                      if colon \<noteq> CHR '':'' then JSONDecodeError
                      else
                        (case scan_once n pf (dropWhile json_ws r1) of
                           Inl x \<Rightarrow> Inl x
                         | Inr (v, r2) \<Rightarrow>
                             (case dropWhile json_ws r2 of
                                [] \<Rightarrow> JSONDecodeError
                              | d # r3 \<Rightarrow>
                                  if d = CHR ''}'' then Inr (JObj (AList.update k v acc), r3)
                                  else if d = CHR '','' then
                                    scan_object n pf (dropWhile json_ws r3) (AList.update k v acc)
                                  else JSONDecodeError)))))"

definition py_json_loads :: "(string \<Rightarrow> string) \<Rightarrow> string \<Rightarrow> py_exn + json" where
  "py_json_loads parse_float s =
     (case scan_once (2 * length s + 2) parse_float (dropWhile json_ws s) of
        Inl name \<Rightarrow> Inl (Exception name)
      | Inr (v, rest) \<Rightarrow>
          if dropWhile json_ws rest = [] then Inr v else Inl (Exception ''JSONDecodeError''))"

subsection \<open>\<open>json.dumps(r, sort_keys=True)\<close>\<close>

text \<open>
  The serialization \<open>dedupe_rows\<close> uses as the identity of a row, with the defaults of
  \<open>json.dumps\<close>: \<open>ensure_ascii\<close> (every character outside blank..\<open>~\<close> is escaped),
  the separators \<open>", "\<close> and \<open>": "\<close>, and the items of every \<open>dict\<close> in the order of
  their keys.
\<close>

function show_nat :: "nat \<Rightarrow> string" where
  "show_nat n =
     (if n < 10 then [char_of (48 + n)]
      else show_nat (n div 10) @ [char_of (48 + n mod 10)])"
  by pat_completeness auto
termination
  by (relation "measure id") auto

declare show_nat.simps [simp del]

definition show_int :: "int \<Rightarrow> string" where
  "show_int i = (if i < 0 then CHR ''-'' # show_nat (nat (- i)) else show_nat (nat i))"

definition hex_digit :: "nat \<Rightarrow> char" where
  "hex_digit d = (if d < 10 then char_of (48 + d) else char_of (87 + d))"

definition escape_char :: "char \<Rightarrow> string" where
  "escape_char c =
     (if c = CHR 0x22 then [CHR 0x5C, CHR 0x22]
      else if c = CHR 0x5C then [CHR 0x5C, CHR 0x5C]
      else if c = CHR 0x0A then [CHR 0x5C, CHR ''n'']
      else if c = CHR 0x0D then [CHR 0x5C, CHR ''r'']
      else if c = CHR 0x09 then [CHR 0x5C, CHR ''t'']
      else if c = CHR 0x08 then [CHR 0x5C, CHR ''b'']
      else if c = CHR 0x0C then [CHR 0x5C, CHR ''f'']
      else if 32 \<le> (of_char c :: nat) \<and> (of_char c :: nat) \<le> 126 then [c]
      else [CHR 0x5C, CHR ''u'', CHR ''0'', CHR ''0'',
            hex_digit (of_char c div 16), hex_digit (of_char c mod 16)])"

definition encode_basestring_ascii :: "string \<Rightarrow> string" where
  "encode_basestring_ascii s = CHR 0x22 # concat (map escape_char s) @ [CHR 0x22]"

fun join_with :: "string \<Rightarrow> string list \<Rightarrow> string" where
  "join_with sep [] = []"
| "join_with sep [x] = x"
| "join_with sep (x # y # ys) = x @ sep @ join_with sep (y # ys)"

fun json_dumps :: "json \<Rightarrow> string"
  and dumps_list :: "json list \<Rightarrow> string list"
  and dumps_items :: "(string \<times> json) list \<Rightarrow> (string \<times> string) list"
where
  "json_dumps JNull = ''null''"
| "json_dumps (JBool b) = (if b then ''true'' else ''false'')"
| "json_dumps (JInt i) = show_int i"
| "json_dumps (JFloat r) = r"
| "json_dumps (JStr s) = encode_basestring_ascii s"
| "json_dumps (JArr xs) = ''['' @ join_with '', '' (dumps_list xs) @ '']''"
| "json_dumps (JObj kvs) =
     ''{'' @ join_with '', ''
              (map (\<lambda>(k, s). encode_basestring_ascii k @ '': '' @ s)
                   (sort_key fst (dumps_items kvs))) @ ''}''"
| "dumps_list [] = []"
| "dumps_list (x # xs) = json_dumps x # dumps_list xs"
| "dumps_items [] = []"
| "dumps_items ((k, v) # kvs) = (k, json_dumps v) # dumps_items kvs"

subsection \<open>RowDeduplicator: \<open>dedupe_rows\<close> (lines 194--203)\<close>

fun dedupe_loop :: "row list \<Rightarrow> string set \<Rightarrow> row list \<Rightarrow> row list" where
  "dedupe_loop [] seen out = out"
| "dedupe_loop (r # rs) seen out =
     (let key = json_dumps (JObj r)
      in if key \<in> seen then dedupe_loop rs seen out
         else dedupe_loop rs (insert key seen) (out @ [r]))"

definition dedupe_rows :: "row list \<Rightarrow> row list" where
  "dedupe_rows rs = dedupe_loop rs {} []"

subsection \<open>RowDeduplicator: the specification's equality of rows\<close>

text \<open>
  The specification compares rows by their keys and values, whatever the order in which
  the keys were inserted. \<open>canonical\<close> follows these words, not the source: it puts the
  items of every \<open>dict\<close>, at any depth, in the order of their keys, and two rows are
  the same when their canonical forms are. It is compared below with the identity
  the source uses, the serialization.
\<close>

fun canonical :: "json \<Rightarrow> json"
  and canonical_list :: "json list \<Rightarrow> json list"
  and canonical_items :: "(string \<times> json) list \<Rightarrow> (string \<times> json) list"
where
  "canonical JNull = JNull"
| "canonical (JBool b) = JBool b"
| "canonical (JInt i) = JInt i"
| "canonical (JFloat r) = JFloat r"
| "canonical (JStr s) = JStr s"
| "canonical (JArr xs) = JArr (canonical_list xs)"
| "canonical (JObj kvs) = JObj (sort_key fst (canonical_items kvs))"
| "canonical_list [] = []"
| "canonical_list (x # xs) = canonical x # canonical_list xs"
| "canonical_items [] = []"
| "canonical_items ((k, v) # kvs) = (k, canonical v) # canonical_items kvs"

definition same_row :: "row \<Rightarrow> row \<Rightarrow> bool" where
  "same_row r r' = (canonical (JObj r) = canonical (JObj r'))"

text \<open>
  What a \<open>JFloat\<close> may hold: one of the three special values, or digits, signs, a point
  and an exponent mark with a point or an exponent mark among them, as \<open>float.__repr__\<close>
  prints. \<open>float_reprs_ok\<close> says so of every \<open>JFloat\<close> in a value.
\<close>

definition float_repr :: "string \<Rightarrow> bool" where
  "float_repr s =
     (s = ''NaN'' \<or> s = ''Infinity'' \<or> s = ''-Infinity''
      \<or> (s \<noteq> [] \<and> set s \<subseteq> set ''0123456789+-.e''
          \<and> (CHR ''.'' \<in> set s \<or> CHR ''e'' \<in> set s)))"

fun float_reprs_ok :: "json \<Rightarrow> bool"
  and float_reprs_ok_list :: "json list \<Rightarrow> bool"
  and float_reprs_ok_items :: "(string \<times> json) list \<Rightarrow> bool"
where
  "float_reprs_ok JNull = True"
| "float_reprs_ok (JBool b) = True"
| "float_reprs_ok (JInt i) = True"
| "float_reprs_ok (JFloat r) = float_repr r"
| "float_reprs_ok (JStr s) = True"
| "float_reprs_ok (JArr xs) = float_reprs_ok_list xs"
| "float_reprs_ok (JObj kvs) = float_reprs_ok_items kvs"
| "float_reprs_ok_list [] = True"
| "float_reprs_ok_list (x # xs) = (float_reprs_ok x \<and> float_reprs_ok_list xs)"
| "float_reprs_ok_items [] = True"
| "float_reprs_ok_items ((k, v) # kvs) = (float_reprs_ok v \<and> float_reprs_ok_items kvs)"

subsection \<open>Request and response models (lines 25--58)\<close>

text \<open>
  The fields \<open>extract\<close> reads. \<open>strategy\<close>, \<open>schema\<close> and \<open>filters\<close> are never read, and
  the \<open>schema\<close> of a \<open>PageResult\<close> is never set. A \<open>float\<close> that is only handed on is a
  \<open>real\<close>.
\<close>

record chunking_options =
  window_size :: int
  overlap :: int

record llm_options =
  provider :: string
  model :: string
  temperature :: real
  json_mode :: bool

record extract_request =
  urls :: "string list"
  query :: string
  target_rows :: int
  chunking :: chunking_options
  llm :: llm_options

record page_result =
  url :: string
  title :: "string option"
  rows :: "row list"

record extract_response =
  success :: bool
  results :: "page_result list"
  error :: "string option"

subsection \<open>The collaborators\<close>

text \<open>
  The HTTP client, the HTML parser, the model provider and \<open>json.loads\<close> are outside the
  repository. They are the fields of an environment; the two that go over the network
  may answer differently each time, so they see the trace of the calls made so far.
  \<^item> \<open>http_get\<close>: \<open>client.get\<close>, \<open>raise_for_status\<close> and \<open>resp.text\<close>;
  \<^item> \<open>page_title\<close>: the search for \<open><title>\<close> and the text of what it holds;
  \<^item> \<open>clean_html_to_text\<close> (lines 66--74): the HTML parser and the regular expression
    that collapse the page to text; \<open>extract\<close> calls it outside any \<open>try\<close>;
  \<^item> \<open>openai_client\<close>: the import of the client library and the construction of the
    client, \<open>Some e\<close> when that raises \<open>e\<close>;
  \<^item> \<open>chat_create\<close>: \<open>client.chat.completions.create\<close> and the read of
    \<open>resp.choices[0].message.content\<close>.
\<close>

datatype response_format = Json_object | Format_None | Format_absent

record chat_request =
  req_model :: string
  req_temperature :: real
  req_response_format :: response_format
  req_system :: string
  req_user :: string

datatype event = Fetch string | Extract string | Create chat_request

record env =
  OPENAI_API_KEY :: string
  DEFAULT_MODEL :: string
  loads :: "string \<Rightarrow> py_exn + json"
  http_get :: "event list \<Rightarrow> string \<Rightarrow> py_exn + string"
  page_title :: "string \<Rightarrow> py_exn + string option"
  clean_html_to_text :: "string \<Rightarrow> py_exn + string"
  openai_client :: "py_exn option"
  chat_create :: "event list \<Rightarrow> chat_request \<Rightarrow> py_exn + string option"

type_synonym 'a outcome = "(py_exn + 'a) \<times> event list"

subsection \<open>\<open>fetch_url\<close> (lines 93--107)\<close>

record fetched =
  html :: "string option"
  fetched_title :: "string option"

definition fetch_url :: "env \<Rightarrow> string \<Rightarrow> event list \<Rightarrow> fetched outcome" where
  "fetch_url E u tr =
     (case (case http_get E tr u of
              Inl e \<Rightarrow> Inl e
            | Inr h \<Rightarrow>
                (case page_title E h of
                   Inl e \<Rightarrow> Inl e
                 | Inr t \<Rightarrow> Inr \<lparr>html = Some h, fetched_title = t\<rparr>)) of
        Inr f \<Rightarrow> (Inr f, tr @ [Fetch u])
      | Inl e \<Rightarrow>
          if is_Exception e then (Inr \<lparr>html = None, fetched_title = None\<rparr>, tr @ [Fetch u])
          else (Inl e, tr @ [Fetch u]))"

subsection \<open>\<open>call_openai_extract\<close> (lines 137--191)\<close>

definition system_prompt :: string where
  "system_prompt =
     ''You are a precise data extractor. Return ONLY JSON. '' @
     ''Given a chunk of webpage text and a user query, extract structured rows relevant to the query. '' @
     ''If nothing relevant exists, return an empty array [].''"

definition user_prompt :: "string \<Rightarrow> string \<Rightarrow> string" where
  "user_prompt q chunk =
     ''USER QUERY:\<newline>'' @ q @ ''\<newline>\<newline>'' @
     ''CHUNK:\<newline>'' @ take 8000 chunk @ ''\<newline>\<newline>'' @
     ''Return JSON array of objects. No prose. No markdown.''"

text \<open>The inner \<open>try\<close> (lines 156--177): the reply text, with the fallback call.\<close>

definition request_text ::
  "env \<Rightarrow> string \<Rightarrow> string \<Rightarrow> string \<Rightarrow> real \<Rightarrow> bool \<Rightarrow> event list \<Rightarrow> string outcome" where
  "request_text E chunk q m t jm tr =
     (let r1 = \<lparr>req_model = m, req_temperature = t,
                req_response_format = (if jm then Json_object else Format_None),
                req_system = system_prompt, req_user = user_prompt q chunk\<rparr>;
          tr1 = tr @ [Create r1]
      in case chat_create E tr r1 of
           Inr content \<Rightarrow> (Inr (case content of None \<Rightarrow> [] | Some s \<Rightarrow> s), tr1)
         | Inl e \<Rightarrow>
             if is_Exception e then
               (let r2 = r1\<lparr>req_response_format := Format_absent\<rparr>;
                    tr2 = tr1 @ [Create r2]
                in case chat_create E tr1 r2 of
                     Inr content \<Rightarrow> (Inr (case content of None \<Rightarrow> [] | Some s \<Rightarrow> s), tr2)
                   | Inl e2 \<Rightarrow> (Inl e2, tr2))
             else (Inl e, tr1))"

definition call_openai_extract ::
  "env \<Rightarrow> string \<Rightarrow> string \<Rightarrow> string \<Rightarrow> real \<Rightarrow> bool \<Rightarrow> event list \<Rightarrow> row list outcome" where
  "call_openai_extract E chunk q m t jm tr =
     (let tr0 = tr @ [Extract chunk] in
      if OPENAI_API_KEY E = [] then (Inr [], tr0)
      else
        (case (case openai_client E of
                 Some e \<Rightarrow> (Inl e, tr0)
               | None \<Rightarrow>
                   (case request_text E chunk q m t jm tr0 of
                      (Inl e, tr1) \<Rightarrow> (Inl e, tr1)
                    | (Inr reply, tr1) \<Rightarrow> (parse_reply (loads E) reply, tr1))) of
           (Inr rs, tr1) \<Rightarrow> (Inr rs, tr1)
         | (Inl e, tr1) \<Rightarrow> if is_Exception e then (Inr [], tr1) else (Inl e, tr1)))"

subsection \<open>TargetAllocator and ExtractionOrchestrator: \<open>extract\<close> (lines 206--246)\<close>

text \<open>
  Line 216. \<open>R / U\<close> is the quotient of two integers as a \<open>float\<close>; it is modelled as
  the exact quotient.
\<close>

definition per_url_target :: "int \<Rightarrow> nat \<Rightarrow> int" where
  "per_url_target R U = max 1 \<lceil>real_of_int R / real (max 1 U)\<rceil>"

text \<open>The loop over the chunks of one page (lines 229--242).\<close>

fun extract_chunks ::
  "env \<Rightarrow> extract_request \<Rightarrow> int \<Rightarrow> string list \<Rightarrow> row list \<Rightarrow> event list \<Rightarrow> row list outcome" where
  "extract_chunks E req tgt [] accumulated tr = (Inr accumulated, tr)"
| "extract_chunks E req tgt (ch # chs) accumulated tr =
     (case call_openai_extract E ch (query req)
             (if model (llm req) \<noteq> [] then model (llm req) else DEFAULT_MODEL E)
             (temperature (llm req)) (json_mode (llm req)) tr of
        (Inl e, tr1) \<Rightarrow> (Inl e, tr1)
      | (Inr rs, tr1) \<Rightarrow>
          (let accumulated' = (if rs \<noteq> [] then dedupe_rows (accumulated @ rs) else accumulated)
           in if int (length accumulated') \<ge> tgt then (Inr accumulated', tr1)
              else extract_chunks E req tgt chs accumulated' tr1))"

text \<open>The loop over the URLs (lines 219--244). \<open>None\<close>: the chunker does not return.\<close>

fun extract_pages ::
  "env \<Rightarrow> extract_request \<Rightarrow> int \<Rightarrow> string list \<Rightarrow> page_result list \<Rightarrow> event list
     \<Rightarrow> page_result list outcome option" where
  "extract_pages E req tgt [] res tr = Some (Inr res, tr)"
| "extract_pages E req tgt (u # us) res tr =
     (case fetch_url E u tr of
        (Inl e, tr1) \<Rightarrow> Some (Inl e, tr1)
      | (Inr f, tr1) \<Rightarrow>
          if html f = None \<or> html f = Some [] then
            extract_pages E req tgt us (res @ [\<lparr>url = u, title = fetched_title f, rows = []\<rparr>]) tr1
          else
            (case clean_html_to_text E (the (html f)) of
               Inl e \<Rightarrow> Some (Inl e, tr1)
             | Inr cleaned \<Rightarrow>
                 (case chunk_text cleaned
                         (window_size (chunking req) * 10) (overlap (chunking req) * 10) of
                    None \<Rightarrow> None
                  | Some chunks \<Rightarrow>
                      (case extract_chunks E req tgt chunks [] tr1 of
                         (Inl e, tr2) \<Rightarrow> Some (Inl e, tr2)
                       | (Inr accumulated, tr2) \<Rightarrow>
                           extract_pages E req tgt us
                             (res @ [\<lparr>url = u, title = fetched_title f, rows = accumulated\<rparr>])
                             tr2))))"

text \<open>\<open>str.lower\<close> on the code points below 256.\<close>

definition py_lower :: "char \<Rightarrow> char" where
  "py_lower c =
     (let n = (of_char c :: nat)
      in if (65 \<le> n \<and> n \<le> 90) \<or> (192 \<le> n \<and> n \<le> 222 \<and> n \<noteq> 215) then char_of (n + 32) else c)"

definition extract_endpoint :: "env \<Rightarrow> extract_request \<Rightarrow> event list \<Rightarrow> extract_response outcome option" where
  "extract_endpoint E req tr =
     (if urls req = [] then
        Some (Inr \<lparr>success = False, results = [], error = Some ''No URLs provided''\<rparr>, tr)
      else if map py_lower (provider (llm req)) \<noteq> ''openai'' then
        Some (Inr \<lparr>success = False, results = [],
                   error = Some ''Only OpenAI provider implemented in this server''\<rparr>, tr)
      else if OPENAI_API_KEY E = [] then
        Some (Inr \<lparr>success = False, results = [],
                   error = Some ''OPENAI_API_KEY not set on server''\<rparr>, tr)
      else
        (case extract_pages E req (per_url_target (target_rows req) (length (urls req)))
                (urls req) [] tr of
           None \<Rightarrow> None
         | Some (Inl e, tr') \<Rightarrow> Some (Inl e, tr')
         | Some (Inr res, tr') \<Rightarrow>
             Some (Inr \<lparr>success = True, results = res, error = None\<rparr>, tr')))"

subsection \<open>Reading the trace\<close>

fun chunks_sent :: "event list \<Rightarrow> string list" where
  "chunks_sent [] = []"
| "chunks_sent (Extract c # evs) = c # chunks_sent evs"
| "chunks_sent (_ # evs) = chunks_sent evs"

fun urls_fetched :: "event list \<Rightarrow> string list" where
  "urls_fetched [] = []"
| "urls_fetched (Fetch u # evs) = u # urls_fetched evs"
| "urls_fetched (_ # evs) = urls_fetched evs"

subsection \<open>A concrete environment, for the examples\<close>

definition demo_pages :: "string \<Rightarrow> py_exn + string" where
  "demo_pages u =
     (if u = ''https://down.example'' then Inl (Exception ''ConnectError'')
      else Inr ''<html><body>Widgets: A 1, B 2</body></html>'')"

definition demo_env :: "string \<Rightarrow> env" where
  "demo_env reply =
     \<lparr>OPENAI_API_KEY = ''sk-test'', DEFAULT_MODEL = ''gpt-4o-mini'',
      loads = py_json_loads id,
      http_get = (\<lambda>tr u. demo_pages u),
      page_title = (\<lambda>h. Inr None),
      clean_html_to_text = Inr,
      openai_client = None,
      chat_create = (\<lambda>tr r. Inr (Some reply))\<rparr>"

definition demo_request :: "string list \<Rightarrow> string \<Rightarrow> int \<Rightarrow> extract_request" where
  "demo_request us p n =
     \<lparr>urls = us, query = ''widgets'', target_rows = n,
      chunking = \<lparr>window_size = 600, overlap = 60\<rparr>,
      llm = \<lparr>provider = p, model = ''gpt-4o-mini'', temperature = 0.1, json_mode = True\<rparr>\<rparr>"


section \<open>Properties\<close>

subsection \<open>TextChunker\<close>

text \<open>For the indices the chunker uses (never negative), a slice is a \<open>take\<close> of a \<open>drop\<close>.\<close>

lemma py_slice_nonneg:
  "0 \<le> i \<Longrightarrow> 0 \<le> j \<Longrightarrow> py_slice xs i j = take (nat j - nat i) (drop (nat i) xs)"
  by (auto simp: py_slice_def Let_def min_def nat_diff_distrib')

text \<open>
  The loop, started at any position \<open>start\<close> with a positive step, returns: it appends
  the chunks at \<open>start\<close>, \<open>start + s\<close>, \<open>start + 2s\<close>, ..., stops at the first chunk
  whose end reaches the end of the text, and (when the step is at most the window) the
  non-overlapping parts of the appended chunks make up the text from \<open>start\<close> on.
\<close>

lemma chunk_loop_spec:
  assumes "0 < w" "1 \<le> s" "0 \<le> start"
  shows "\<exists>cs. chunk_loop T w s start chunks = Some (chunks @ cs)
     \<and> (\<forall>i<length cs. cs ! i = py_slice T (start + int i * s) (min (int (length T)) (start + int i * s + w)))
     \<and> (\<forall>i. Suc i < length cs \<longrightarrow> start + int i * s + w < int (length T))
     \<and> (s \<le> w \<longrightarrow> cs \<noteq> [] \<longrightarrow> int (length T) \<le> start + int (length cs - 1) * s + w)
     \<and> (cs = [] \<longleftrightarrow> int (length T) \<le> start)
     \<and> (s \<le> w \<longrightarrow> start \<le> int (length T) \<longrightarrow>
           concat (map (take (nat s)) (butlast cs) @ (if cs = [] then [] else [last cs])) = drop (nat start) T)"
  using assms
proof (induction "nat (int (length T) - start)" arbitrary: start chunks rule: less_induct)
  case less
  let ?n = "int (length T)"
  show ?case
  proof (cases "start < ?n")
    case False
    then have "chunk_loop T w s start chunks = Some (chunks @ [])"
      by (subst chunk_loop.simps) simp
    moreover have "start \<le> ?n \<longrightarrow> drop (nat start) T = []" using False by auto
    ultimately show ?thesis using False by (intro exI [of _ "[]"]) auto
  next
    case True
    let ?c = "py_slice T start (min ?n (start + w))"
    show ?thesis
    proof (cases "?n \<le> start + w")
      case fin: True
      have run: "chunk_loop T w s start chunks = Some (chunks @ [?c])"
        using True fin by (subst chunk_loop.simps) (simp add: Let_def)
      have "?c = drop (nat start) T"
        using True fin less.prems by (simp add: py_slice_nonneg min_absorb1)
      then show ?thesis using run True fin by (intro exI [of _ "[?c]"]) simp
    next
      case more: False
      have dec: "nat (?n - (start + s)) < nat (?n - start)"
        using True less.prems by linarith
      have "0 \<le> start + s" using less.prems by simp
      from less.hyps [OF dec \<open>0 < w\<close> \<open>1 \<le> s\<close> this, of "chunks @ [?c]"]
      obtain cs where
        run': "chunk_loop T w s (start + s) (chunks @ [?c]) = Some ((chunks @ [?c]) @ cs)"
        and nth': "\<And>i. i < length cs \<Longrightarrow>
           cs ! i = py_slice T (start + s + int i * s) (min ?n (start + s + int i * s + w))"
        and early': "\<And>i. Suc i < length cs \<Longrightarrow> start + s + int i * s + w < ?n"
        and final': "s \<le> w \<Longrightarrow> cs \<noteq> [] \<Longrightarrow> ?n \<le> start + s + int (length cs - 1) * s + w"
        and empty': "cs = [] \<longleftrightarrow> ?n \<le> start + s"
        and cover': "s \<le> w \<Longrightarrow> start + s \<le> ?n \<Longrightarrow>
           concat (map (take (nat s)) (butlast cs) @ (if cs = [] then [] else [last cs]))
             = drop (nat (start + s)) T"
        by blast
      have run: "chunk_loop T w s start chunks = Some (chunks @ (?c # cs))"
        using True more run' by (subst chunk_loop.simps) (simp add: Let_def)
      have nth: "(?c # cs) ! i = py_slice T (start + int i * s) (min ?n (start + int i * s + w))"
        if "i < length (?c # cs)" for i
      proof (cases i)
        case 0
        then show ?thesis by simp
      next
        case (Suc k)
        with that have "k < length cs" by simp
        from nth' [OF this] show ?thesis using Suc by (simp add: algebra_simps)
      qed
      have early: "start + int i * s + w < ?n" if "Suc i < length (?c # cs)" for i
      proof (cases i)
        case 0
        then show ?thesis using more by simp
      next
        case (Suc k)
        with that have "Suc k < length cs" by simp
        from early' [OF this] show ?thesis using Suc by (simp add: algebra_simps)
      qed
      have final: "?n \<le> start + int (length (?c # cs) - 1) * s + w" if "s \<le> w"
      proof (cases "cs = []")
        case True
        with empty' have "?n \<le> start + s" by simp
        then show ?thesis using True that by simp
      next
        case False
        then obtain k where k: "length cs = Suc k" by (cases cs) auto
        from final' [OF that False] show ?thesis by (simp add: k algebra_simps)
      qed
      have cover: "concat (map (take (nat s)) (butlast (?c # cs)) @ [last (?c # cs)])
            = drop (nat start) T" if "s \<le> w"
      proof -
        have lt: "start + s < ?n" using that more by linarith
        then have ne: "cs \<noteq> []" using empty' by auto
        have c: "?c = take (nat w) (drop (nat start) T)"
          using more less.prems by (simp add: py_slice_nonneg min_absorb2 nat_diff_distrib nat_add_distrib)
        have hd: "take (nat s) ?c = take (nat s) (drop (nat start) T)"
          using that less.prems by (simp add: c min_absorb1 nat_le_eq_zle)
        have tl: "drop (nat (start + s)) T = drop (nat s) (drop (nat start) T)"
          using less.prems by (simp add: nat_add_distrib add.commute)
        have rest: "concat (map (take (nat s)) (butlast cs) @ [last cs]) = drop (nat (start + s)) T"
          using cover' [OF that] lt ne by simp
        have "concat (map (take (nat s)) (butlast (?c # cs)) @ [last (?c # cs)])
            = take (nat s) ?c @ concat (map (take (nat s)) (butlast cs) @ [last cs])"
          using ne by simp
        also have "\<dots> = take (nat s) (drop (nat start) T) @ drop (nat s) (drop (nat start) T)"
          by (simp only: hd rest tl)
        also have "\<dots> = drop (nat start) T"
          by (rule append_take_drop_id)
        finally show ?thesis .
      qed
      show ?thesis
        using run nth early final cover True by (intro exI [of _ "?c # cs"]) simp
    qed
  qed
qed

lemma chunk_loop_from_start:
  assumes "0 < w" "1 \<le> s"
  shows "\<exists>cs. chunk_loop T w s 0 [] = Some cs
     \<and> (\<forall>i<length cs. cs ! i = py_slice T (int i * s) (min (int (length T)) (int i * s + w)))
     \<and> (\<forall>i. Suc i < length cs \<longrightarrow> int i * s + w < int (length T))
     \<and> (s \<le> w \<longrightarrow> cs \<noteq> [] \<longrightarrow> int (length T) \<le> int (length cs - 1) * s + w)
     \<and> (cs = [] \<longleftrightarrow> T = [])
     \<and> (s \<le> w \<longrightarrow>
           concat (map (take (nat s)) (butlast cs) @ (if cs = [] then [] else [last cs])) = T)"
proof -
  have "(0::int) \<le> 0" by simp
  from chunk_loop_spec [OF assms this, of T "[]"] show ?thesis by simp
qed


text \<open>
  The clamp matters: with a step of 0 (what \<open>window - overlap\<close> is for
  \<open>overlap = window\<close>) the loop does not return when the first window ends before the
  text does.
\<close>

lemma chunk_loop_stuck_aux:
  assumes "chunk_loop text window step start chunks = Some y"
  shows "\<not> (step = 0 \<and> 0 \<le> window \<and> 0 \<le> start \<and> start + window < int (length text))"
  by (rule chunk_loop.raw_induct
        [where P = "\<lambda>text window step start chunks y.
           \<not> (step = 0 \<and> 0 \<le> window \<and> 0 \<le> start \<and> start + window < int (length text))",
         OF _ assms])
     (auto simp: Let_def split: if_splits, (metis not_le)+)

lemma chunk_loop_stuck:
  assumes "0 \<le> window" "0 \<le> start" "start + window < int (length text)"
  shows "chunk_loop text window 0 start chunks = None"
proof (cases "chunk_loop text window 0 start chunks")
  case (Some y)
  from chunk_loop_stuck_aux [OF this] assms show ?thesis by simp
qed simp

text \<open>
  C1. For a window \<open>w > 0\<close> and an overlap \<open>ov \<ge> 0\<close>, \<open>chunk_text\<close> returns chunks
  \<open>cs\<close> such that, with \<open>s = max 1 (w - ov)\<close> and \<open>n\<close> the length of the text: chunk
  \<open>i\<close> is \<open>T[i*s : min(n, i*s + w)]\<close>; every chunk but the last ends before \<open>n\<close> and the
  last one ends exactly at \<open>n\<close>; there is no chunk exactly when the text is empty; and
  the first \<open>s\<close> characters of every chunk but the last, followed by the whole last
  chunk, are the text. For \<open>w = 600\<close>, \<open>ov = 60\<close> and a text of 1000 characters the
  chunks are \<open>T[0:600]\<close> and \<open>T[540:1000]\<close>.
\<close>

theorem chunk_text_covers:
  assumes "0 < w" "0 \<le> ov"
  shows "(\<exists>cs. chunk_text T w ov = Some cs \<and>
      (let s = max 1 (w - ov); n = int (length T) in
         (\<forall>i<length cs. cs ! i = py_slice T (int i * s) (min n (int i * s + w)))
       \<and> (\<forall>i. Suc i < length cs \<longrightarrow> int i * s + w < n)
       \<and> (cs \<noteq> [] \<longrightarrow> min n (int (length cs - 1) * s + w) = n)
       \<and> (cs = [] \<longleftrightarrow> T = [])
       \<and> concat (map (take (nat s)) (butlast cs) @ (if cs = [] then [] else [last cs])) = T))
     \<and> (length T = 1000 \<longrightarrow>
          chunk_text T 600 60 = Some [py_slice T 0 600, py_slice T 540 1000])"
proof
  let ?s = "max 1 (w - ov)"
  have s: "1 \<le> ?s" "?s \<le> w" using assms by auto
  from chunk_loop_from_start [OF \<open>0 < w\<close> s(1), of T]
  obtain cs where run: "chunk_loop T w ?s 0 [] = Some cs"
    and nth: "\<forall>i<length cs. cs ! i = py_slice T (int i * ?s) (min (int (length T)) (int i * ?s + w))"
    and early: "\<forall>i. Suc i < length cs \<longrightarrow> int i * ?s + w < int (length T)"
    and final: "?s \<le> w \<longrightarrow> cs \<noteq> [] \<longrightarrow> int (length T) \<le> int (length cs - 1) * ?s + w"
    and empty: "cs = [] \<longleftrightarrow> T = []"
    and cover: "?s \<le> w \<longrightarrow> concat (map (take (nat ?s)) (butlast cs) @ (if cs = [] then [] else [last cs])) = T"
    by blast
  have "chunk_text T w ov = Some cs"
    using run assms by (simp add: chunk_text_def)
  moreover have "cs \<noteq> [] \<longrightarrow> min (int (length T)) (int (length cs - 1) * ?s + w) = int (length T)"
    using final s(2) by (simp add: min_absorb1)
  moreover note empty
  moreover have "concat (map (take (nat ?s)) (butlast cs) @ (if cs = [] then [] else [last cs])) = T"
    using cover s(2) by blast
  ultimately show "\<exists>cs. chunk_text T w ov = Some cs \<and>
      (let s = max 1 (w - ov); n = int (length T) in
         (\<forall>i<length cs. cs ! i = py_slice T (int i * s) (min n (int i * s + w)))
       \<and> (\<forall>i. Suc i < length cs \<longrightarrow> int i * s + w < n)
       \<and> (cs \<noteq> [] \<longrightarrow> min n (int (length cs - 1) * s + w) = n)
       \<and> (cs = [] \<longleftrightarrow> T = [])
       \<and> concat (map (take (nat s)) (butlast cs) @ (if cs = [] then [] else [last cs])) = T)"
    using nth early unfolding Let_def by blast
next
  show "length T = 1000 \<longrightarrow>
          chunk_text T 600 60 = Some [py_slice T 0 600, py_slice T 540 1000]"
  proof
    assume len: "length T = 1000"
    have "chunk_loop T 600 540 540 [py_slice T 0 600] = Some [py_slice T 0 600, py_slice T 540 1000]"
      using len by (subst chunk_loop.simps) (simp add: Let_def)
    then have "chunk_loop T 600 540 0 [] = Some [py_slice T 0 600, py_slice T 540 1000]"
      using len by (subst chunk_loop.simps) (simp add: Let_def)
    then show "chunk_text T 600 60 = Some [py_slice T 0 600, py_slice T 540 1000]"
      by (simp add: chunk_text_def)
  qed
qed


theorem chunk_text_covers_witness:
  "(0::int) < 600 \<and> (0::int) \<le> 60 \<and> length [0..<1000::nat] = 1000
   \<and> chunk_text [0..<1000::nat] 600 60 = Some [[0..<600], [540..<1000]]"
  using chunk_text_covers [of 600 60 "[0..<1000::nat]"]
  by (simp add: py_slice_def del: upt_rec_numeral)

text \<open>
  C8. \<open>chunk_text\<close> returns for every text, window and overlap (in particular for
  \<open>overlap \<ge> window\<close>, where the step is clamped to 1), and for a positive window it
  returns at most as many chunks as the text has characters.
\<close>

theorem chunk_text_terminates:
  "\<exists>cs. chunk_text T w ov = Some cs \<and> (0 < w \<longrightarrow> length cs \<le> length T)"
proof (cases "0 < w")
  case False
  then show ?thesis by (simp add: chunk_text_def)
next
  case True
  let ?s = "max 1 (w - ov)"
  have s: "1 \<le> ?s" by simp
  from chunk_loop_from_start [OF True s, of T]
  obtain cs where run: "chunk_loop T w ?s 0 [] = Some cs"
    and early: "\<forall>i. Suc i < length cs \<longrightarrow> int i * ?s + w < int (length T)"
    and empty: "cs = [] \<longleftrightarrow> T = []"
    by blast
  have "length cs \<le> length T"
  proof (cases "length cs")
    case 0
    then show ?thesis by simp
  next
    case (Suc k)
    show ?thesis
    proof (cases k)
      case 0
      with \<open>length cs = Suc k\<close> empty show ?thesis by (cases T) auto
    next
      case (Suc j)
      with \<open>length cs = Suc k\<close> early have "int j * ?s + w < int (length T)" by simp
      moreover have "int j \<le> int j * ?s" using s by (simp add: mult_le_cancel_left1)
      ultimately have "int j + 1 < int (length T)" using True by linarith
      with Suc \<open>length cs = Suc k\<close> show ?thesis by simp
    qed
  qed
  with run True show ?thesis by (simp add: chunk_text_def)
qed

theorem chunk_text_terminates_witness:
  "(0::int) < 2 \<and> chunk_text ''abc'' 2 5 = Some [''ab'', ''bc''] \<and> length [''ab'', ''bc''] \<le> length ''abc''"
proof -
  have run: "chunk_text ''abc'' 2 5 = Some [''ab'', ''bc'']" by code_simp
  show ?thesis using chunk_text_terminates [of "''abc''" 2 5] run by simp
qed

subsection \<open>ResultParser\<close>

lemma safe_parse_rows_caught:
  "is_Exception e \<Longrightarrow> ld s = Inl e \<Longrightarrow> safe_parse_rows ld s = Inr []"
  by (simp add: safe_parse_rows_def)

lemma safe_parse_rows_returns:
  assumes "\<forall>s e. ld s = Inl e \<longrightarrow> is_Exception e"
  shows "\<exists>rs. safe_parse_rows ld s = Inr rs"
proof (cases "ld s")
  case (Inl e)
  with assms have "is_Exception e" by blast
  with Inl show ?thesis by (simp add: safe_parse_rows_def)
next
  case (Inr v)
  then show ?thesis
    by (cases v) (auto simp: safe_parse_rows_def split: option.splits json.splits)
qed

lemma first_rows_returns:
  assumes "\<forall>s e. ld s = Inl e \<longrightarrow> is_Exception e"
  shows "\<exists>rs. first_rows ld cands = Inr rs"
proof (induction cands)
  case Nil
  show ?case by simp
next
  case (Cons c cands)
  from safe_parse_rows_returns [OF assms, of c] obtain rs where "safe_parse_rows ld c = Inr rs"
    by blast
  with Cons show ?case by (cases "rs = []") auto
qed

lemma first_rows_none:
  "\<forall>c\<in>set cands. safe_parse_rows ld c = Inr [] \<Longrightarrow> first_rows ld cands = Inr []"
  by (induction cands) auto


lemma py_json_loads_raises: "py_json_loads pf s = Inl e \<Longrightarrow> is_Exception e"
  by (auto simp: py_json_loads_def split: sum.splits prod.splits if_splits)

lemma parse_reply_returns:
  assumes "\<forall>s e. ld s = Inl e \<longrightarrow> is_Exception e"
  shows "\<exists>rs. parse_reply ld s = Inr rs"
proof -
  from safe_parse_rows_returns [OF assms, of s] obtain rs where rs: "safe_parse_rows ld s = Inr rs"
    by blast
  from first_rows_returns [OF assms, of "extract_json_candidates s"]
  obtain rs' where "first_rows ld (extract_json_candidates s) = Inr rs'" by blast
  with rs show ?thesis
    by (cases "rs = []") (auto simp: parse_reply_def)
qed

text \<open>
  C2. Whatever \<open>json.loads\<close> does, as long as what it raises derives from \<open>Exception\<close>:
  \<open>safe_parse_rows\<close> returns a list of rows for every text and the empty list where
  \<open>json.loads\<close> raises; the parse of a reply (the whole text, then every candidate
  fragment) returns a list of rows for every text, and the empty list when the text and
  every fragment fail to parse.
\<close>

theorem parse_reply_total:
  assumes "\<forall>s e. ld s = Inl e \<longrightarrow> is_Exception e"
  shows "(\<exists>rs. safe_parse_rows ld s = Inr rs)
       \<and> ((\<exists>e. ld s = Inl e) \<longrightarrow> safe_parse_rows ld s = Inr [])
       \<and> (\<exists>rs. parse_reply ld s = Inr rs)
       \<and> ((\<forall>c\<in>set (s # extract_json_candidates s). \<exists>e. ld c = Inl e)
            \<longrightarrow> parse_reply ld s = Inr [])"
proof (intro conjI impI)
  show "\<exists>rs. safe_parse_rows ld s = Inr rs"
    by (rule safe_parse_rows_returns [OF assms])
  show "safe_parse_rows ld s = Inr []" if "\<exists>e. ld s = Inl e"
    using that assms by (auto intro: safe_parse_rows_caught)
  show "\<exists>rs. parse_reply ld s = Inr rs"
    by (rule parse_reply_returns [OF assms])
  show "parse_reply ld s = Inr []"
    if all: "\<forall>c\<in>set (s # extract_json_candidates s). \<exists>e. ld c = Inl e"
  proof -
    have "safe_parse_rows ld c = Inr []" if "c \<in> set (s # extract_json_candidates s)" for c
      using that all assms safe_parse_rows_caught by blast
    then show ?thesis
      by (simp add: parse_reply_def first_rows_none)
  qed
qed

theorem parse_reply_total_witness:
  \<open>safe_parse_rows (py_json_loads id) ''{"a": }'' = Inr []
   \<and> parse_reply (py_json_loads id) ''{"a": }'' = Inr []\<close>
proof -
  have h: "\<forall>s e. py_json_loads id s = Inl e \<longrightarrow> is_Exception e"
    using py_json_loads_raises by blast
  have c: \<open>extract_json_candidates ''{"a": }'' = [''{"a": }'']\<close> by code_simp
  have l: \<open>py_json_loads id ''{"a": }'' = Inl (Exception ''JSONDecodeError'')\<close> by code_simp
  show ?thesis using parse_reply_total [OF h, of \<open>''{"a": }''\<close>] c l by simp
qed







subsection \<open>ExtractionOrchestrator\<close>

lemma chunks_sent_append [simp]: "chunks_sent (xs @ ys) = chunks_sent xs @ chunks_sent ys"
  by (induction xs rule: chunks_sent.induct) auto

lemma urls_fetched_append [simp]: "urls_fetched (xs @ ys) = urls_fetched xs @ urls_fetched ys"
  by (induction xs rule: urls_fetched.induct) auto

lemma fetch_url_trace: "snd (fetch_url E u tr) = tr @ [Fetch u]"
  by (auto simp: fetch_url_def split: sum.splits)

lemma fetch_url_returns:
  assumes "\<forall>h u e. http_get E h u = Inl e \<longrightarrow> is_Exception e"
    and "\<forall>h e. page_title E h = Inl e \<longrightarrow> is_Exception e"
  shows "\<exists>f. fetch_url E u tr = (Inr f, tr @ [Fetch u])
           \<and> ((\<exists>e. http_get E tr u = Inl e) \<longrightarrow> html f = None)"
  using assms by (auto simp: fetch_url_def split: sum.splits)

lemma request_text_trace:
  "\<exists>evs. snd (request_text E ch q m t jm tr) = tr @ evs
       \<and> chunks_sent evs = [] \<and> urls_fetched evs = []"
  by (auto simp: request_text_def Let_def split: sum.splits)

lemma request_text_returns:
  assumes "\<forall>h r e. chat_create E h r = Inl e \<longrightarrow> is_Exception e"
  shows "fst (request_text E ch q m t jm tr) = Inl e \<Longrightarrow> is_Exception e"
  using assms by (auto simp: request_text_def Let_def split: sum.splits if_splits)

lemma call_openai_extract_trace:
  "chunks_sent (snd (call_openai_extract E ch q m t jm tr)) = chunks_sent tr @ [ch]
   \<and> urls_fetched (snd (call_openai_extract E ch q m t jm tr)) = urls_fetched tr"
proof -
  from request_text_trace [where E = E and ch = ch and q = q and m = m and t = t and jm = jm
      and tr = "tr @ [Extract ch]"]
  obtain evs where evs: "snd (request_text E ch q m t jm (tr @ [Extract ch])) = (tr @ [Extract ch]) @ evs"
    "chunks_sent evs = []" "urls_fetched evs = []" by blast
  show ?thesis
  proof (cases "request_text E ch q m t jm (tr @ [Extract ch])")
    case (Pair r tr1)
    with evs have "tr1 = (tr @ [Extract ch]) @ evs" by simp
    with Pair evs(2,3) show ?thesis
      by (auto simp: call_openai_extract_def Let_def split: option.splits sum.splits prod.splits)
  qed
qed

lemma call_openai_extract_returns:
  assumes "\<forall>s e. loads E s = Inl e \<longrightarrow> is_Exception e"
    and "\<forall>h r e. chat_create E h r = Inl e \<longrightarrow> is_Exception e"
    and "\<forall>e. openai_client E = Some e \<longrightarrow> is_Exception e"
  shows "\<exists>rs. fst (call_openai_extract E ch q m t jm tr) = Inr rs"
proof (cases "OPENAI_API_KEY E = []")
  case True
  then show ?thesis by (simp add: call_openai_extract_def Let_def)
next
  case key: False
  show ?thesis
  proof (cases "openai_client E")
    case (Some e)
    with assms(3) have "is_Exception e" by blast
    with Some key show ?thesis by (simp add: call_openai_extract_def Let_def)
  next
    case None
    show ?thesis
    proof (cases "request_text E ch q m t jm (tr @ [Extract ch])")
      case (Pair r tr1)
      show ?thesis
      proof (cases r)
        case (Inl e)
        with Pair request_text_returns [OF assms(2), where ch = ch and q = q and m = m and t = t
          and jm = jm and tr = "tr @ [Extract ch]" and e = e]
        have "is_Exception e" by simp
        with Inl Pair None key show ?thesis by (simp add: call_openai_extract_def Let_def)
      next
        case (Inr reply)
        from parse_reply_returns [OF assms(1), of reply]
        obtain rs where "parse_reply (loads E) reply = Inr rs" by blast
        with Inr Pair None key show ?thesis by (simp add: call_openai_extract_def Let_def)
      qed
    qed
  qed
qed

lemma chunk_text_returns: "\<exists>cs. chunk_text T w ov = Some cs"
proof (cases "0 < w")
  case False
  then show ?thesis by (simp add: chunk_text_def)
next
  case True
  have "1 \<le> max 1 (w - ov)" by simp
  from chunk_loop_from_start [OF True this, of T] True show ?thesis
    by (auto simp: chunk_text_def)
qed

lemma extract_chunks_trace:
  "\<exists>k\<le>length chs.
      chunks_sent (snd (extract_chunks E req tgt chs acc tr)) = chunks_sent tr @ take k chs
    \<and> urls_fetched (snd (extract_chunks E req tgt chs acc tr)) = urls_fetched tr
    \<and> (\<forall>acc'. fst (extract_chunks E req tgt chs acc tr) = Inr acc' \<longrightarrow> k < length chs
           \<longrightarrow> tgt \<le> int (length acc'))"
proof (induction chs arbitrary: acc tr)
  case Nil
  show ?case by simp
next
  case (Cons ch chs)
  let ?m = "if model (llm req) \<noteq> [] then model (llm req) else DEFAULT_MODEL E"
  let ?call = "call_openai_extract E ch (query req) ?m (temperature (llm req)) (json_mode (llm req)) tr"
  obtain r tr1 where call: "?call = (r, tr1)" by (cases ?call)
  from call_openai_extract_trace [of E ch "query req" ?m "temperature (llm req)" "json_mode (llm req)" tr]
  have tr1: "chunks_sent tr1 = chunks_sent tr @ [ch]" "urls_fetched tr1 = urls_fetched tr"
    by (simp_all add: call)
  show ?case
  proof (cases r)
    case (Inl e)
    with call tr1 show ?thesis by (intro exI [of _ 1]) simp
  next
    case (Inr rs)
    let ?acc = "if rs \<noteq> [] then dedupe_rows (acc @ rs) else acc"
    show ?thesis
    proof (cases "tgt \<le> int (length ?acc)")
      case True
      with call Inr tr1 show ?thesis by (intro exI [of _ 1]) (simp add: Let_def)
    next
      case False
      with call Inr have step: "extract_chunks E req tgt (ch # chs) acc tr
          = extract_chunks E req tgt chs ?acc tr1" by (simp add: Let_def)
      from Cons.IH [of ?acc tr1] obtain k where k: "k \<le> length chs"
        "chunks_sent (snd (extract_chunks E req tgt chs ?acc tr1)) = chunks_sent tr1 @ take k chs"
        "urls_fetched (snd (extract_chunks E req tgt chs ?acc tr1)) = urls_fetched tr1"
        "\<forall>acc'. fst (extract_chunks E req tgt chs ?acc tr1) = Inr acc' \<longrightarrow> k < length chs
           \<longrightarrow> tgt \<le> int (length acc')" by blast
      show ?thesis
        unfolding step using k tr1 by (intro exI [of _ "Suc k"]) simp
    qed
  qed
qed

lemma extract_chunks_stop:
  assumes "chs1 \<noteq> []" and "extract_chunks E req tgt chs1 acc tr = (Inr acc1, tr1)"
    and "tgt \<le> int (length acc1)"
  shows "extract_chunks E req tgt (chs1 @ chs2) acc tr = (Inr acc1, tr1)"
  using assms
proof (induction chs1 arbitrary: acc tr)
  case Nil
  then show ?case by simp
next
  case (Cons ch chs)
  let ?m = "if model (llm req) \<noteq> [] then model (llm req) else DEFAULT_MODEL E"
  let ?call = "call_openai_extract E ch (query req) ?m (temperature (llm req)) (json_mode (llm req)) tr"
  obtain r tr' where call: "?call = (r, tr')" by (cases ?call)
  show ?case
  proof (cases r)
    case (Inl e)
    with call Cons.prems(2) show ?thesis by simp
  next
    case (Inr rs)
    let ?acc = "if rs \<noteq> [] then dedupe_rows (acc @ rs) else acc"
    show ?thesis
    proof (cases "tgt \<le> int (length ?acc)")
      case True
      with call Inr Cons.prems(2) show ?thesis by (simp add: Let_def)
    next
      case False
      with call Inr Cons.prems(2)
      have rest: "extract_chunks E req tgt chs ?acc tr' = (Inr acc1, tr1)" by (simp add: Let_def)
      have "chs \<noteq> []"
      proof
        assume "chs = []"
        with rest have "acc1 = ?acc" by simp
        with False Cons.prems(3) show False by simp
      qed
      from Cons.IH [OF this rest Cons.prems(3)] call Inr False show ?thesis
        by (simp add: Let_def)
    qed
  qed
qed

lemma extract_chunks_returns:
  assumes "\<forall>s e. loads E s = Inl e \<longrightarrow> is_Exception e"
    and "\<forall>h r e. chat_create E h r = Inl e \<longrightarrow> is_Exception e"
    and "\<forall>e. openai_client E = Some e \<longrightarrow> is_Exception e"
  shows "\<exists>acc'. fst (extract_chunks E req tgt chs acc tr) = Inr acc'"
proof (induction chs arbitrary: acc tr)
  case Nil
  show ?case by simp
next
  case (Cons ch chs)
  let ?m = "if model (llm req) \<noteq> [] then model (llm req) else DEFAULT_MODEL E"
  let ?call = "call_openai_extract E ch (query req) ?m (temperature (llm req)) (json_mode (llm req)) tr"
  obtain r tr1 where call: "?call = (r, tr1)" by (cases ?call)
  from call_openai_extract_returns [OF assms, of ch "query req" ?m "temperature (llm req)"
      "json_mode (llm req)" tr] call
  obtain rs where "r = Inr rs" by auto
  with call Cons.IH show ?case by (simp add: Let_def)
qed


lemma extract_pages_returns:
  assumes "\<forall>h u e. http_get E h u = Inl e \<longrightarrow> is_Exception e"
    and "\<forall>h e. page_title E h = Inl e \<longrightarrow> is_Exception e"
    and "\<forall>s e. loads E s = Inl e \<longrightarrow> is_Exception e"
    and "\<forall>h r e. chat_create E h r = Inl e \<longrightarrow> is_Exception e"
    and "\<forall>e. openai_client E = Some e \<longrightarrow> is_Exception e"
    and "\<forall>h. \<exists>t. clean_html_to_text E h = Inr t"
  shows "\<exists>ps tr'. extract_pages E req tgt us res0 tr = Some (Inr (res0 @ ps), tr')
           \<and> map url ps = us
           \<and> urls_fetched tr' = urls_fetched tr @ us
           \<and> (\<forall>i<length us. (\<forall>h. \<exists>e. http_get E h (us ! i) = Inl e) \<longrightarrow> rows (ps ! i) = [])"
proof (induction us arbitrary: res0 tr)
  case Nil
  show ?case by simp
next
  case (Cons u us)
  from fetch_url_returns [OF assms(1,2), of u tr] obtain fd where
    f: "fetch_url E u tr = (Inr fd, tr @ [Fetch u])"
    and failed: "(\<exists>e. http_get E tr u = Inl e) \<longrightarrow> html fd = None" by blast
  show ?case
  proof (cases "html fd = None \<or> html fd = Some []")
    case True
    let ?p = "\<lparr>url = u, title = fetched_title fd, rows = []\<rparr>"
    from Cons.IH [of "res0 @ [?p]" "tr @ [Fetch u]"] obtain ps tr' where
      run: "extract_pages E req tgt us (res0 @ [?p]) (tr @ [Fetch u]) = Some (Inr ((res0 @ [?p]) @ ps), tr')"
      and us: "map url ps = us"
      and fetched: "urls_fetched tr' = urls_fetched (tr @ [Fetch u]) @ us"
      and rest: "\<forall>i<length us. (\<forall>h. \<exists>e. http_get E h (us ! i) = Inl e) \<longrightarrow> rows (ps ! i) = []"
      by blast
    have A: "extract_pages E req tgt (u # us) res0 tr = Some (Inr (res0 @ ?p # ps), tr')"
      using f True run by simp
    have B: "map url (?p # ps) = u # us" using us by simp
    have C: "urls_fetched tr' = urls_fetched tr @ u # us" using fetched by simp
    have D: "rows ((?p # ps) ! i) = []"
      if "i < length (u # us)" and "\<forall>h. \<exists>e. http_get E h ((u # us) ! i) = Inl e" for i
      using that rest by (cases i) auto
    show ?thesis
      by (rule exI [of _ "?p # ps"], rule exI [of _ tr'], intro conjI allI impI)
         (rule A, rule B, rule C, rule D)
  next
    case False
    then obtain h where h: "html fd = Some h" "h \<noteq> []" by auto
    from assms(6) obtain cleaned where cl: "clean_html_to_text E h = Inr cleaned" by blast
    from chunk_text_returns obtain chunks where
      ch: "chunk_text cleaned (window_size (chunking req) * 10) (overlap (chunking req) * 10) = Some chunks"
      by blast
    obtain r tr2 where ex: "extract_chunks E req tgt chunks [] (tr @ [Fetch u]) = (r, tr2)"
      by (cases "extract_chunks E req tgt chunks [] (tr @ [Fetch u])")
    from extract_chunks_returns [OF assms(3,4,5), of req tgt chunks "[]" "tr @ [Fetch u]"] ex
    obtain acc where r: "r = Inr acc" by auto
    from extract_chunks_trace [of chunks E req tgt "[]" "tr @ [Fetch u]"] ex
    have tr2: "urls_fetched tr2 = urls_fetched (tr @ [Fetch u])" by auto
    let ?p = "\<lparr>url = u, title = fetched_title fd, rows = acc\<rparr>"
    from Cons.IH [of "res0 @ [?p]" tr2] obtain ps tr' where
      run: "extract_pages E req tgt us (res0 @ [?p]) tr2 = Some (Inr ((res0 @ [?p]) @ ps), tr')"
      and us: "map url ps = us"
      and fetched: "urls_fetched tr' = urls_fetched tr2 @ us"
      and rest: "\<forall>i<length us. (\<forall>h. \<exists>e. http_get E h (us ! i) = Inl e) \<longrightarrow> rows (ps ! i) = []"
      by blast
    have A: "extract_pages E req tgt (u # us) res0 tr = Some (Inr (res0 @ ?p # ps), tr')"
      using f h cl ch ex r run by simp
    have B: "map url (?p # ps) = u # us" using us by simp
    have C: "urls_fetched tr' = urls_fetched tr @ u # us" using fetched tr2 by simp
    have D: "rows ((?p # ps) ! i) = []"
      if "i < length (u # us)" and "\<forall>h. \<exists>e. http_get E h ((u # us) ! i) = Inl e" for i
    proof (cases i)
      case 0
      with that(2) failed h show ?thesis by auto
    next
      case (Suc j)
      with that rest show ?thesis by auto
    qed
    show ?thesis
      by (rule exI [of _ "?p # ps"], rule exI [of _ tr'], intro conjI allI impI)
         (rule A, rule B, rule C, rule D)
  qed
qed

text \<open>
  C6. Let the collaborators raise only what derives from \<open>Exception\<close> and the cleaner
  return. For a request with URLs, the provider \<open>openai\<close> (in any case of letters) and
  an API key, the endpoint responds with \<open>success = True\<close> and one \<open>PageResult\<close> per
  URL in the order of the request; every URL is fetched once, also those after a
  failure; and the \<open>PageResult\<close> of a URL whose fetch fails has no rows.
\<close>

theorem fetch_failure_is_local:
  assumes "\<forall>h u e. http_get E h u = Inl e \<longrightarrow> is_Exception e"
    and "\<forall>h e. page_title E h = Inl e \<longrightarrow> is_Exception e"
    and "\<forall>s e. loads E s = Inl e \<longrightarrow> is_Exception e"
    and "\<forall>h r e. chat_create E h r = Inl e \<longrightarrow> is_Exception e"
    and "\<forall>e. openai_client E = Some e \<longrightarrow> is_Exception e"
    and "\<forall>h. \<exists>t. clean_html_to_text E h = Inr t"
    and "urls req \<noteq> []"
    and "map py_lower (provider (llm req)) = ''openai''"
    and "OPENAI_API_KEY E \<noteq> []"
  shows "\<exists>resp tr'. extract_endpoint E req tr = Some (Inr resp, tr')
           \<and> success resp \<and> error resp = None
           \<and> map url (results resp) = urls req
           \<and> urls_fetched tr' = urls_fetched tr @ urls req
           \<and> (\<forall>i<length (urls req).
                 (\<forall>h. \<exists>e. http_get E h (urls req ! i) = Inl e) \<longrightarrow> rows (results resp ! i) = [])"
proof -
  from extract_pages_returns [OF assms(1-6), of req
      "per_url_target (target_rows req) (length (urls req))" "urls req" "[]" tr]
  obtain ps tr' where
    "extract_pages E req (per_url_target (target_rows req) (length (urls req))) (urls req) [] tr
       = Some (Inr ps, tr')"
    "map url ps = urls req" "urls_fetched tr' = urls_fetched tr @ urls req"
    "\<forall>i<length (urls req). (\<forall>h. \<exists>e. http_get E h (urls req ! i) = Inl e) \<longrightarrow> rows (ps ! i) = []"
    by auto
  with assms(7-9) show ?thesis by (simp add: extract_endpoint_def)
qed

lemma demo_run:
  \<open>map_option fst (extract_endpoint (demo_env ''[{"a":1},{"b":2}]'')
      (demo_request [''https://down.example'', ''https://up.example''] ''OpenAI'' 10) [])
   = Some (Inr \<lparr>success = True,
        results = [\<lparr>url = ''https://down.example'', title = None, rows = []\<rparr>,
                   \<lparr>url = ''https://up.example'', title = None,
                    rows = [[(''a'', JInt 1)], [(''b'', JInt 2)]]\<rparr>],
        error = None\<rparr>)\<close>
  by code_simp

text \<open>
  C5, with the count taken after deduplication. The chunks of a page are sent in order, and only a prefix of them;
  if the loop ends before the last chunk, the deduplicated accumulator has reached the
  target; as soon as it has after some chunk, the chunks behind are not sent; and when
  the rows of the first chunk, deduplicated, already reach the target, that chunk is
  the only one sent. The rows a chunk yields are counted after deduplication: the
  counterexample is a first chunk that yields two rows, both the same, for a target of
  two, where the second chunk is sent too.
\<close>

theorem early_stop:
  "(\<exists>k\<le>length chs.
        chunks_sent (snd (extract_chunks E req tgt chs acc tr)) = chunks_sent tr @ take k chs
      \<and> (\<forall>acc'. fst (extract_chunks E req tgt chs acc tr) = Inr acc' \<longrightarrow> k < length chs
             \<longrightarrow> tgt \<le> int (length acc')))
   \<and> (\<forall>chs1 chs2 acc1 tr1.
        chs = chs1 @ chs2 \<and> chs1 \<noteq> []
        \<and> extract_chunks E req tgt chs1 acc tr = (Inr acc1, tr1) \<and> tgt \<le> int (length acc1)
        \<longrightarrow> extract_chunks E req tgt chs acc tr = (Inr acc1, tr1))
   \<and> (\<forall>ch rest rs tr1.
        chs = ch # rest
        \<and> call_openai_extract E ch (query req)
              (if model (llm req) \<noteq> [] then model (llm req) else DEFAULT_MODEL E)
              (temperature (llm req)) (json_mode (llm req)) tr = (Inr rs, tr1)
        \<and> rs \<noteq> [] \<and> tgt \<le> int (length (dedupe_rows (acc @ rs)))
        \<longrightarrow> extract_chunks E req tgt chs acc tr = (Inr (dedupe_rows (acc @ rs)), tr1)
            \<and> chunks_sent tr1 = chunks_sent tr @ [ch])"
proof (intro conjI allI impI)
  from extract_chunks_trace [of chs E req tgt acc tr]
  show "\<exists>k\<le>length chs.
        chunks_sent (snd (extract_chunks E req tgt chs acc tr)) = chunks_sent tr @ take k chs
      \<and> (\<forall>acc'. fst (extract_chunks E req tgt chs acc tr) = Inr acc' \<longrightarrow> k < length chs
             \<longrightarrow> tgt \<le> int (length acc'))" by blast
next
  fix chs1 chs2 acc1 tr1
  assume "chs = chs1 @ chs2 \<and> chs1 \<noteq> []
        \<and> extract_chunks E req tgt chs1 acc tr = (Inr acc1, tr1) \<and> tgt \<le> int (length acc1)"
  then show "extract_chunks E req tgt chs acc tr = (Inr acc1, tr1)"
    using extract_chunks_stop by blast
next
  fix ch rest rs tr1
  assume a: "chs = ch # rest
        \<and> call_openai_extract E ch (query req)
              (if model (llm req) \<noteq> [] then model (llm req) else DEFAULT_MODEL E)
              (temperature (llm req)) (json_mode (llm req)) tr = (Inr rs, tr1)
        \<and> rs \<noteq> [] \<and> tgt \<le> int (length (dedupe_rows (acc @ rs)))"
  then show "extract_chunks E req tgt chs acc tr = (Inr (dedupe_rows (acc @ rs)), tr1)"
    by (simp add: Let_def)
  from a call_openai_extract_trace [of E ch "query req"
      "if model (llm req) \<noteq> [] then model (llm req) else DEFAULT_MODEL E"
      "temperature (llm req)" "json_mode (llm req)" tr]
  show "chunks_sent tr1 = chunks_sent tr @ [ch]" by simp
qed

lemma demo_call_distinct:
  \<open>fst (call_openai_extract (demo_env ''[{"a":1},{"b":2}]'') ''c1'' ''widgets'' ''gpt-4o-mini''
          0.1 True [])
   = Inr [[(''a'', JInt 1)], [(''b'', JInt 2)]]\<close>
  by code_simp

lemma demo_dedupe_distinct:
  \<open>dedupe_rows ([] @ [[(''a'', JInt 1)], [(''b'', JInt 2)]]) = [[(''a'', JInt 1)], [(''b'', JInt 2)]]\<close>
  by code_simp

theorem early_stop_witness:
  \<open>chunks_sent (snd (extract_chunks (demo_env ''[{"a":1},{"b":2}]'') (demo_request [] ''openai'' 2)
       2 [''c1'', ''c2'', ''c3''] [] [])) = [''c1'']
   \<and> fst (extract_chunks (demo_env ''[{"a":1},{"b":2}]'') (demo_request [] ''openai'' 2)
       2 [''c1'', ''c2'', ''c3''] [] []) = Inr [[(''a'', JInt 1)], [(''b'', JInt 2)]]\<close>
proof -
  let ?E = \<open>demo_env ''[{"a":1},{"b":2}]''\<close>
  let ?req = "demo_request [] ''openai'' 2"
  obtain r tr1 where call: "call_openai_extract ?E ''c1'' ''widgets'' ''gpt-4o-mini'' 0.1 True [] = (r, tr1)"
    by (cases "call_openai_extract ?E ''c1'' ''widgets'' ''gpt-4o-mini'' 0.1 True []")
  with demo_call_distinct have r: "r = Inr [[(''a'', JInt 1)], [(''b'', JInt 2)]]" by simp
  from early_stop [of "[''c1'', ''c2'', ''c3'']" ?E ?req 2 "[]" "[]"] call r demo_dedupe_distinct
  show ?thesis by (simp add: demo_request_def demo_env_def)
qed

theorem early_stop_counterexample:
  \<open>fst (call_openai_extract (demo_env ''[{"a":1},{"a":1}]'') ''c1'' ''widgets'' ''gpt-4o-mini''
          0.1 True [])
     = Inr [[(''a'', JInt 1)], [(''a'', JInt 1)]]
   \<and> chunks_sent (snd (extract_chunks (demo_env ''[{"a":1},{"a":1}]'') (demo_request [] ''openai'' 2)
       2 [''c1'', ''c2''] [] [])) = [''c1'', ''c2'']\<close>
  by code_simp


lemma lower_OpenAI: "map py_lower ''OpenAI'' = ''openai''" by code_simp

theorem fetch_failure_is_local_witness:
  \<open>\<exists>resp tr'.
      extract_endpoint (demo_env ''[{"a":1},{"b":2}]'')
        (demo_request [''https://down.example'', ''https://up.example''] ''OpenAI'' 10) []
        = Some (Inr resp, tr')
    \<and> success resp
    \<and> map url (results resp) = [''https://down.example'', ''https://up.example'']
    \<and> urls_fetched tr' = [''https://down.example'', ''https://up.example'']
    \<and> rows (results resp ! 0) = []
    \<and> rows (results resp ! 1) = [[(''a'', JInt 1)], [(''b'', JInt 2)]]\<close>
proof -
  let ?E = \<open>demo_env ''[{"a":1},{"b":2}]''\<close>
  let ?req = "demo_request [''https://down.example'', ''https://up.example''] ''OpenAI'' 10"
  have 1: "\<forall>h u e. http_get ?E h u = Inl e \<longrightarrow> is_Exception e"
    by (auto simp: demo_env_def demo_pages_def split: if_splits)
  have 2: "\<forall>h e. page_title ?E h = Inl e \<longrightarrow> is_Exception e"
    by (simp add: demo_env_def)
  have 3: "\<forall>s e. loads ?E s = Inl e \<longrightarrow> is_Exception e"
    using py_json_loads_raises by (simp add: demo_env_def)
  have 4: "\<forall>h r e. chat_create ?E h r = Inl e \<longrightarrow> is_Exception e"
    by (simp add: demo_env_def)
  have 5: "\<forall>e. openai_client ?E = Some e \<longrightarrow> is_Exception e"
    by (simp add: demo_env_def)
  have 6: "\<forall>h. \<exists>t. clean_html_to_text ?E h = Inr t"
    by (simp add: demo_env_def)
  have 7: "urls ?req \<noteq> []" by (simp add: demo_request_def)
  have prov: "provider (llm ?req) = ''OpenAI''" by (simp add: demo_request_def)
  have 8: "map py_lower (provider (llm ?req)) = ''openai''"
    by (simp only: prov lower_OpenAI)
  have 9: "OPENAI_API_KEY ?E \<noteq> []" by (simp add: demo_env_def)
  have down: "\<forall>h. \<exists>e. http_get ?E h (urls ?req ! 0) = Inl e"
    by (simp add: demo_env_def demo_pages_def demo_request_def)
  from fetch_failure_is_local [OF 1 2 3 4 5 6 7 8 9, of "[]"]
  obtain resp tr' where run: "extract_endpoint ?E ?req [] = Some (Inr resp, tr')"
    and ok: "success resp" "map url (results resp) = urls ?req"
      "urls_fetched tr' = urls_fetched [] @ urls ?req"
    and failed: "\<forall>i<length (urls ?req).
        (\<forall>h. \<exists>e. http_get ?E h (urls ?req ! i) = Inl e) \<longrightarrow> rows (results resp ! i) = []"
    by blast
  from failed down have "rows (results resp ! 0) = []" by (simp add: demo_request_def)
  moreover from demo_run run
  have "rows (results resp ! 1) = [[(''a'', JInt 1)], [(''b'', JInt 2)]]" by simp
  ultimately show ?thesis using run ok by (auto simp: demo_request_def)
qed


subsection \<open>RowDeduplicator\<close>

lemma dedupe_loop_snoc:
  "dedupe_loop (rs @ [r]) seen out =
     (if json_dumps (JObj r) \<in> seen \<union> (\<lambda>x. json_dumps (JObj x)) ` set rs
      then dedupe_loop rs seen out else dedupe_loop rs seen out @ [r])"
  by (induction rs arbitrary: seen out) (auto simp: Let_def)

lemma dedupe_rows_snoc:
  "dedupe_rows (rs @ [r]) =
     (if json_dumps (JObj r) \<in> (\<lambda>x. json_dumps (JObj x)) ` set rs
      then dedupe_rows rs else dedupe_rows rs @ [r])"
  by (simp add: dedupe_rows_def dedupe_loop_snoc)

lemma dedupe_rows_Nil: "dedupe_rows [] = []"
  by (simp add: dedupe_rows_def)

lemma dedupe_rows_subseq: "subseq (dedupe_rows rs) rs"
proof (induction rs rule: rev_induct)
  case Nil
  show ?case by (simp add: dedupe_rows_Nil)
next
  case (snoc r rs)
  then show ?case
    by (auto simp: dedupe_rows_snoc intro: subseq_order.order_trans)
qed

lemma dedupe_rows_keys:
  "(\<lambda>x. json_dumps (JObj x)) ` set (dedupe_rows rs) = (\<lambda>x. json_dumps (JObj x)) ` set rs"
proof (induction rs rule: rev_induct)
  case Nil
  show ?case by (simp add: dedupe_rows_Nil)
next
  case (snoc r rs)
  then show ?case by (auto simp: dedupe_rows_snoc)
qed

lemma dedupe_rows_distinct: "distinct (map (\<lambda>x. json_dumps (JObj x)) (dedupe_rows rs))"
proof (induction rs rule: rev_induct)
  case Nil
  show ?case by (simp add: dedupe_rows_Nil)
next
  case (snoc r rs)
  with dedupe_rows_keys [of rs] show ?case
    by (auto simp: dedupe_rows_snoc)
qed

lemma dedupe_rows_fixed:
  "distinct (map (\<lambda>x. json_dumps (JObj x)) rs) \<Longrightarrow> dedupe_rows rs = rs"
proof (induction rs rule: rev_induct)
  case Nil
  show ?case by (simp add: dedupe_rows_Nil)
next
  case (snoc r rs)
  then show ?case by (auto simp: dedupe_rows_snoc)
qed

lemma dedupe_rows_idem: "dedupe_rows (dedupe_rows rs) = dedupe_rows rs"
  by (rule dedupe_rows_fixed [OF dedupe_rows_distinct])

lemma hex_digit_inj:
  assumes "a < 16" "b < 16" "hex_digit a = hex_digit b"
  shows "a = b"
proof -
  have *: "take_bit 8 n = n" if "n < 256" for n :: nat
    using that by (simp add: take_bit_nat_eq_self)
  from assms show ?thesis
    by (auto simp: hex_digit_def char_of_eq_iff * split: if_splits)
qed

lemma of_char_div_mod_inj:
  assumes "(of_char c :: nat) div 16 = of_char d div 16" "(of_char c :: nat) mod 16 = of_char d mod 16"
  shows "c = d"
proof -
  have "(of_char c :: nat) = of_char d"
    using assms by (metis div_mult_mod_eq)
  then show ?thesis by simp
qed

lemma escape_char_hd: "\<exists>e es. escape_char c = e # es \<and> e \<noteq> CHR 0x22"
  by (auto simp: escape_char_def)

lemma escape_char_forms:
  "escape_char c = [c] \<and> c \<noteq> CHR 0x5C \<and> c \<noteq> CHR 0x22
   \<or> (\<exists>l. escape_char c = [CHR 0x5C, l] \<and> l \<noteq> CHR ''u''
          \<and> (l = CHR 0x22 \<longleftrightarrow> c = CHR 0x22) \<and> (l = CHR 0x5C \<longleftrightarrow> c = CHR 0x5C)
          \<and> (l = CHR ''n'' \<longleftrightarrow> c = CHR 0x0A) \<and> (l = CHR ''r'' \<longleftrightarrow> c = CHR 0x0D)
          \<and> (l = CHR ''t'' \<longleftrightarrow> c = CHR 0x09) \<and> (l = CHR ''b'' \<longleftrightarrow> c = CHR 0x08)
          \<and> (l = CHR ''f'' \<longleftrightarrow> c = CHR 0x0C)
          \<and> l \<in> {CHR 0x22, CHR 0x5C, CHR ''n'', CHR ''r'', CHR ''t'', CHR ''b'', CHR ''f''})
   \<or> (escape_char c = [CHR 0x5C, CHR ''u'', CHR ''0'', CHR ''0'',
                         hex_digit (of_char c div 16), hex_digit (of_char c mod 16)])"
  by (simp add: escape_char_def)

lemma escape_char_prefix_free:
  assumes "escape_char c @ x = escape_char d @ y"
  shows "c = d \<and> x = y"
proof -
  have lt: "(of_char c :: nat) div 16 < 16" "(of_char c :: nat) mod 16 < 16"
    "(of_char d :: nat) div 16 < 16" "(of_char d :: nat) mod 16 < 16"
    using nat_of_char_less_256 [of c] nat_of_char_less_256 [of d] by (simp_all add: div_less_iff_less_mult)
  from escape_char_forms [of c] escape_char_forms [of d] assms show ?thesis
    by (elim disjE exE conjE) (auto dest: hex_digit_inj [OF lt(1) lt(3)] hex_digit_inj [OF lt(2) lt(4)]
          intro: of_char_div_mod_inj)
qed

lemma escaped_inj:
  "concat (map escape_char s) @ CHR 0x22 # r = concat (map escape_char s') @ CHR 0x22 # r'
     \<Longrightarrow> s = s' \<and> r = r'"
proof (induction s arbitrary: s')
  case Nil
  show ?case
  proof (cases s')
    case Nil
    with Nil.prems show ?thesis by simp
  next
    case (Cons d ds)
    from escape_char_hd [of d] obtain e es where "escape_char d = e # es" "e \<noteq> CHR 0x22" by blast
    with Nil.prems Cons show ?thesis by simp
  qed
next
  case (Cons c cs)
  show ?case
  proof (cases s')
    case Nil
    from escape_char_hd [of c] obtain e es where "escape_char c = e # es" "e \<noteq> CHR 0x22" by blast
    with Cons.prems Nil show ?thesis by simp
  next
    case (Cons d ds)
    with Cons.prems have "escape_char c @ (concat (map escape_char cs) @ CHR 0x22 # r)
        = escape_char d @ (concat (map escape_char ds) @ CHR 0x22 # r')" by simp
    from escape_char_prefix_free [OF this]
    have "c = d" and "concat (map escape_char cs) @ CHR 0x22 # r
        = concat (map escape_char ds) @ CHR 0x22 # r'" by simp_all
    with Cons.IH [of ds] Cons show ?thesis by simp
  qed
qed

lemma encode_inj:
  "encode_basestring_ascii k @ r = encode_basestring_ascii k' @ r' \<Longrightarrow> k = k' \<and> r = r'"
  using escaped_inj [of k r k' r'] by (simp add: encode_basestring_ascii_def)

lemma digit_char: "k < 10 \<Longrightarrow> is_digit (char_of (48 + k)) \<and> digit_val (char_of (48 + k)) = k"
proof -
  assume k: "k < 10"
  then have "(48 + k) mod 256 = 48 + k" by simp
  then have "(of_char (char_of (48 + k)) :: nat) = 48 + k" by simp
  moreover have "(of_char (CHR ''0'') :: nat) = 48" "(of_char (CHR ''9'') :: nat) = 57" by simp_all
  ultimately show ?thesis using k
    by (simp add: is_digit_def digit_val_def less_eq_char_def)
qed

lemma show_nat_digits: "show_nat n \<noteq> [] \<and> (\<forall>c\<in>set (show_nat n). is_digit c)"
proof (induction n rule: show_nat.induct)
  case (1 n)
  show ?case
  proof (cases "n < 10")
    case True
    then show ?thesis using digit_char [of n] by (subst (1 2) show_nat.simps) simp
  next
    case False
    have "n mod 10 < 10" by simp
    from digit_char [OF this] 1 False show ?thesis by (subst (1 2) show_nat.simps) simp
  qed
qed

lemma nat_of_digits_snoc: "nat_of_digits (ds @ [d]) = 10 * nat_of_digits ds + digit_val d"
  by (simp add: nat_of_digits_def)

lemma nat_of_digits_show_nat: "nat_of_digits (show_nat n) = n"
proof (induction n rule: show_nat.induct)
  case (1 n)
  show ?case
  proof (cases "n < 10")
    case True
    then show ?thesis using digit_char [of n]
      by (subst show_nat.simps) (simp add: nat_of_digits_def)
  next
    case False
    have "n mod 10 < 10" by simp
    from digit_char [OF this] 1 False show ?thesis
      by (subst show_nat.simps) (simp add: nat_of_digits_snoc)
  qed
qed

lemma show_nat_inj: "show_nat n = show_nat m \<Longrightarrow> n = m"
  by (metis nat_of_digits_show_nat)

lemma minus_not_digit: "\<not> is_digit (CHR ''-'')"
  by (simp add: is_digit_def less_eq_char_def)

lemma show_int_inj: "show_int i = show_int j \<Longrightarrow> i = j"
proof -
  assume eq: "show_int i = show_int j"
  have hd: "is_digit (hd (show_nat n))" for n
    using show_nat_digits [of n] by (cases "show_nat n") auto
  have ne: "show_nat n \<noteq> CHR ''-'' # s" for n s
    using hd [of n] minus_not_digit by auto
  show ?thesis
  proof (cases "i < 0"; cases "j < 0")
    assume "i < 0" "j < 0"
    with eq have "nat (- i) = nat (- j)" by (auto simp: show_int_def dest: show_nat_inj)
    with \<open>i < 0\<close> \<open>j < 0\<close> show ?thesis by simp
  next
    assume "i < 0" "\<not> j < 0"
    with eq have "show_nat (nat j) = CHR ''-'' # show_nat (nat (- i))" by (simp add: show_int_def)
    with ne show ?thesis by blast
  next
    assume "\<not> i < 0" "j < 0"
    with eq have "show_nat (nat i) = CHR ''-'' # show_nat (nat (- j))" by (simp add: show_int_def)
    with ne show ?thesis by blast
  next
    assume "\<not> i < 0" "\<not> j < 0"
    with eq have "nat i = nat j" by (auto simp: show_int_def dest: show_nat_inj)
    with \<open>\<not> i < 0\<close> \<open>\<not> j < 0\<close> show ?thesis by simp
  qed
qed

lemma show_int_chars: "show_int i \<noteq> [] \<and> (\<forall>c\<in>set (show_int i). is_digit c \<or> c = CHR ''-'')"
  using show_nat_digits by (auto simp: show_int_def)

text \<open>A token without delimiters, followed by a delimiter or by nothing, is read back whole.\<close>

lemma token_inj:
  assumes "\<forall>c\<in>set a. c \<notin> D" "\<forall>c\<in>set b. c \<notin> D"
    and "r = [] \<or> hd r \<in> D" "r' = [] \<or> hd r' \<in> D"
    and "a @ r = b @ r'"
  shows "a = b \<and> r = r'"
  using assms
proof (induction a arbitrary: b)
  case Nil
  show ?case
  proof (cases b)
    case Nil
    with Nil.prems show ?thesis by simp
  next
    case (Cons y ys)
    with Nil.prems have "r = y # ys @ r'" "y \<notin> D" by simp_all
    with Nil.prems(3) show ?thesis by simp
  qed
next
  case (Cons x xs)
  show ?case
  proof (cases b)
    case Nil
    with Cons.prems have "r' = x # xs @ r" "x \<notin> D" by simp_all
    with Cons.prems(4) show ?thesis by simp
  next
    case (Cons y ys)
    with Cons.prems Cons.IH [of ys] show ?thesis by simp
  qed
qed

lemma digit_codes: "\<forall>n\<in>set [48..<58]. char_of (n::nat) \<in> set ''0123456789''"
  by code_simp

lemma is_digit_cases: "is_digit c \<Longrightarrow> c \<in> set ''0123456789''"
proof -
  assume "is_digit c"
  then have "48 \<le> (of_char c :: nat) \<and> (of_char c :: nat) < 58"
    by (simp add: is_digit_def less_eq_char_def)
  then have "(of_char c :: nat) \<in> set [48..<58]"
    by (simp only: set_upt atLeastLessThan_iff)
  with digit_codes have "char_of (of_char c :: nat) \<in> set ''0123456789''" by blast
  then show ?thesis by simp
qed

lemma digits_sub: "set ''0123456789'' \<subseteq> set ''0123456789-''"
  by simp

lemma show_int_no_delim: "c \<in> set (show_int i) \<Longrightarrow> c \<in> set ''0123456789-''"
proof -
  assume "c \<in> set (show_int i)"
  with show_int_chars [of i] have "is_digit c \<or> c = CHR ''-''" by blast
  then show ?thesis
  proof
    assume "is_digit c"
    from is_digit_cases [OF this] digits_sub show ?thesis by blast
  next
    assume "c = CHR ''-''"
    then show ?thesis by simp
  qed
qed

lemma show_int_head: "\<exists>c cs. show_int i = c # cs \<and> c \<in> set ''0123456789-''"
proof -
  from show_int_chars [of i] obtain c cs where c: "show_int i = c # cs" by (cases "show_int i") auto
  then have "c \<in> set (show_int i)" by simp
  from show_int_no_delim [OF this] c show ?thesis by blast
qed

lemma float_repr_cases:
  assumes "float_repr s"
  obtains "s = ''NaN''" | "s = ''Infinity''" | "s = ''-Infinity''"
  | "s \<noteq> []" "set s \<subseteq> set ''0123456789+-.e''" "CHR ''.'' \<in> set s \<or> CHR ''e'' \<in> set s"
  using assms unfolding float_repr_def by blast

lemma float_chars_sub: "set ''0123456789+-.e'' \<subseteq> set ''0123456789+-.eNI''"
  by simp

lemma float_repr_head: "float_repr s \<Longrightarrow> \<exists>c cs. s = c # cs \<and> c \<in> set ''0123456789+-.eNI''"
proof -
  assume "float_repr s"
  then show ?thesis
  proof (cases rule: float_repr_cases)
    case 1 then show ?thesis by simp
  next
    case 2 then show ?thesis by simp
  next
    case 3 then show ?thesis by simp
  next
    case 4
    then have ne: "s \<noteq> []" and sub: "set s \<subseteq> set ''0123456789+-.e''" by simp_all
    from ne obtain c cs where c: "s = c # cs" by (cases s) auto
    then have "c \<in> set s" by simp
    with sub float_chars_sub have "c \<in> set ''0123456789+-.eNI''" by blast
    with c show ?thesis by blast
  qed
qed

lemma float_chars_no_delim:
  "c \<in> set ''0123456789+-.e'' \<Longrightarrow> c \<notin> {CHR '','', CHR '']'', CHR ''}''}"
  by auto

lemma float_repr_no_delim:
  "float_repr s \<Longrightarrow> c \<in> set s \<Longrightarrow> c \<notin> {CHR '','', CHR '']'', CHR ''}''}"
proof -
  assume "float_repr s" and c: "c \<in> set s"
  from this(1) show ?thesis
  proof (cases rule: float_repr_cases)
    case 1 with c show ?thesis by auto
  next
    case 2 with c show ?thesis by auto
  next
    case 3 with c show ?thesis by auto
  next
    case 4
    with c have "c \<in> set ''0123456789+-.e''" by blast
    from float_chars_no_delim [OF this] show ?thesis .
  qed
qed

lemma int_chars_plain: "c \<in> set ''0123456789-'' \<Longrightarrow> c \<notin> {CHR ''.'', CHR ''e'', CHR ''N'', CHR ''I''}"
  by auto

lemma float_repr_not_int: "float_repr s \<Longrightarrow> s \<noteq> show_int i"
proof
  assume f: "float_repr s" and eq: "s = show_int i"
  have plain: "c \<notin> {CHR ''.'', CHR ''e'', CHR ''N'', CHR ''I''}" if "c \<in> set s" for c
    using that eq show_int_no_delim int_chars_plain by blast
  from f show False
  proof (cases rule: float_repr_cases)
    case 1 with plain [of "CHR ''N''"] show False by simp
  next
    case 2 with plain [of "CHR ''I''"] show False by simp
  next
    case 3 with plain [of "CHR ''I''"] show False by simp
  next
    case 4 with plain show False by blast
  qed
qed

lemma dumps_hd:
  "float_reprs_ok v \<Longrightarrow>
     \<exists>c cs. json_dumps v = c # cs \<and>
       (case v of
          JNull \<Rightarrow> c = CHR ''n''
        | JBool _ \<Rightarrow> c \<in> {CHR ''t'', CHR ''f''}
        | JInt _ \<Rightarrow> c \<in> set ''0123456789-''
        | JFloat _ \<Rightarrow> c \<in> set ''0123456789+-.eNI''
        | JStr _ \<Rightarrow> c = CHR 0x22
        | JArr _ \<Rightarrow> c = CHR ''[''
        | JObj _ \<Rightarrow> c = CHR ''{'')"
proof (cases v)
  case (JInt i)
  from show_int_head [of i] obtain c cs where "show_int i = c # cs" "c \<in> set ''0123456789-''"
    by blast
  with JInt show ?thesis by (simp del: set_simps list.set)
next
  case (JFloat s)
  assume "float_reprs_ok v"
  with JFloat have "float_repr s" by simp
  from float_repr_head [OF this] obtain c cs where "s = c # cs" "c \<in> set ''0123456789+-.eNI''"
    by blast
  with JFloat show ?thesis by (simp del: set_simps list.set)
qed (simp_all add: encode_basestring_ascii_def)

lemma head_no_delim:
  "c = CHR ''n'' \<or> c \<in> {CHR ''t'', CHR ''f''} \<or> c \<in> set ''0123456789-''
     \<or> c \<in> set ''0123456789+-.eNI'' \<or> c = CHR 0x22 \<or> c = CHR ''['' \<or> c = CHR ''{''
   \<Longrightarrow> c \<notin> {CHR '','', CHR '']'', CHR ''}''}"
  by auto

lemma dumps_hd_no_delim:
  "float_reprs_ok v \<Longrightarrow> \<exists>c cs. json_dumps v = c # cs \<and> c \<notin> {CHR '','', CHR '']'', CHR ''}''}"
proof -
  assume "float_reprs_ok v"
  from dumps_hd [OF this] obtain c cs where c: "json_dumps v = c # cs"
    and k: "case v of JNull \<Rightarrow> c = CHR ''n'' | JBool _ \<Rightarrow> c \<in> {CHR ''t'', CHR ''f''}
       | JInt _ \<Rightarrow> c \<in> set ''0123456789-'' | JFloat _ \<Rightarrow> c \<in> set ''0123456789+-.eNI''
       | JStr _ \<Rightarrow> c = CHR 0x22 | JArr _ \<Rightarrow> c = CHR ''['' | JObj _ \<Rightarrow> c = CHR ''{''"
    by blast
  from k have "c = CHR ''n'' \<or> c \<in> {CHR ''t'', CHR ''f''} \<or> c \<in> set ''0123456789-''
     \<or> c \<in> set ''0123456789+-.eNI'' \<or> c = CHR 0x22 \<or> c = CHR ''['' \<or> c = CHR ''{''"
    by (cases v) (simp_all del: set_simps list.set)
  from head_no_delim [OF this] c show ?thesis by blast
qed

lemma int_token:
  assumes "r = [] \<or> hd r \<in> {CHR '','', CHR '']'', CHR ''}''}"
    and "r' = [] \<or> hd r' \<in> {CHR '','', CHR '']'', CHR ''}''}"
    and "\<forall>c\<in>set b. c \<notin> {CHR '','', CHR '']'', CHR ''}''}"
    and "show_int i @ r = b @ r'"
  shows "show_int i = b \<and> r = r'"
proof -
  have "\<forall>c\<in>set (show_int i). c \<notin> {CHR '','', CHR '']'', CHR ''}''}"
    using show_int_no_delim by fastforce
  from token_inj [OF this assms(3) assms(1) assms(2) assms(4)] show ?thesis .
qed

lemma float_head_other:
  "c \<in> set ''0123456789+-.eNI'' \<Longrightarrow>
     c \<noteq> CHR ''n'' \<and> c \<noteq> CHR ''t'' \<and> c \<noteq> CHR ''f'' \<and> c \<noteq> CHR 0x22 \<and> c \<noteq> CHR ''['' \<and> c \<noteq> CHR ''{''"
  by auto

lemma int_head_other:
  "c \<in> set ''0123456789-'' \<Longrightarrow>
     c \<noteq> CHR ''n'' \<and> c \<noteq> CHR ''t'' \<and> c \<noteq> CHR ''f'' \<and> c \<noteq> CHR 0x22 \<and> c \<noteq> CHR ''['' \<and> c \<noteq> CHR ''{''"
  by auto

lemma same_kind:
  assumes "float_reprs_ok v" "float_reprs_ok v'"
    and "r = [] \<or> hd r \<in> {CHR '','', CHR '']'', CHR ''}''}"
    and "r' = [] \<or> hd r' \<in> {CHR '','', CHR '']'', CHR ''}''}"
    and "json_dumps v @ r = json_dumps v' @ r'"
  shows "case v of
           JNull \<Rightarrow> v' = JNull
         | JBool _ \<Rightarrow> (\<exists>b. v' = JBool b)
         | JInt _ \<Rightarrow> (\<exists>i. v' = JInt i)
         | JFloat _ \<Rightarrow> (\<exists>s. v' = JFloat s)
         | JStr _ \<Rightarrow> (\<exists>s. v' = JStr s)
         | JArr _ \<Rightarrow> (\<exists>xs. v' = JArr xs)
         | JObj _ \<Rightarrow> (\<exists>kvs. v' = JObj kvs)"
proof -
  from dumps_hd [OF assms(1)] obtain c cs where c: "json_dumps v = c # cs"
    "case v of JNull \<Rightarrow> c = CHR ''n'' | JBool _ \<Rightarrow> c \<in> {CHR ''t'', CHR ''f''}
       | JInt _ \<Rightarrow> c \<in> set ''0123456789-'' | JFloat _ \<Rightarrow> c \<in> set ''0123456789+-.eNI''
       | JStr _ \<Rightarrow> c = CHR 0x22 | JArr _ \<Rightarrow> c = CHR ''['' | JObj _ \<Rightarrow> c = CHR ''{''"
    by blast
  from dumps_hd [OF assms(2)] obtain c' cs' where c': "json_dumps v' = c' # cs'"
    "case v' of JNull \<Rightarrow> c' = CHR ''n'' | JBool _ \<Rightarrow> c' \<in> {CHR ''t'', CHR ''f''}
       | JInt _ \<Rightarrow> c' \<in> set ''0123456789-'' | JFloat _ \<Rightarrow> c' \<in> set ''0123456789+-.eNI''
       | JStr _ \<Rightarrow> c' = CHR 0x22 | JArr _ \<Rightarrow> c' = CHR ''['' | JObj _ \<Rightarrow> c' = CHR ''{''"
    by blast
  from assms(5) c(1) c'(1) have same: "c = c'" by simp
  have intfloat: False if "v = JInt i" "v' = JFloat s" for i s
  proof -
    from that assms(2) have f: "float_repr s" by simp
    from that assms(5) have "show_int i @ r = s @ r'" by simp
    from int_token [OF assms(3) assms(4) _ this] float_repr_no_delim [OF f]
    have "show_int i = s" by blast
    with float_repr_not_int [OF f] show False by blast
  qed
  have floatint: False if "v = JFloat s" "v' = JInt i" for i s
  proof -
    from that assms(1) have f: "float_repr s" by simp
    from that assms(5) have "show_int i @ r' = s @ r" by simp
    from int_token [OF assms(4) assms(3) _ this] float_repr_no_delim [OF f]
    have "show_int i = s" by blast
    with float_repr_not_int [OF f] show False by blast
  qed
  show ?thesis
  proof (cases v)
    case JNull
    with c(2) c'(2) same show ?thesis
      by (cases v') (auto simp del: list.set set_simps dest: float_head_other int_head_other)
  next
    case (JBool b)
    with c(2) c'(2) same show ?thesis
      by (cases v') (auto simp del: list.set set_simps dest: float_head_other int_head_other)
  next
    case (JInt i)
    with c(2) c'(2) same intfloat show ?thesis
      by (cases v') (auto simp del: list.set set_simps dest: float_head_other int_head_other)
  next
    case (JFloat s)
    with c(2) c'(2) same floatint show ?thesis
      by (cases v') (auto simp del: list.set set_simps dest: float_head_other int_head_other)
  next
    case (JStr s)
    with c(2) c'(2) same show ?thesis
      by (cases v') (auto simp del: list.set set_simps dest: float_head_other int_head_other)
  next
    case (JArr xs)
    with c(2) c'(2) same show ?thesis
      by (cases v') (auto simp del: list.set set_simps dest: float_head_other int_head_other)
  next
    case (JObj kvs)
    with c(2) c'(2) same show ?thesis
      by (cases v') (auto simp del: list.set set_simps dest: float_head_other int_head_other)
  qed
qed

lemma dumps_list_map: "dumps_list xs = map json_dumps xs"
  by (induction xs) auto

lemma dumps_items_map: "dumps_items kvs = map (\<lambda>(k, v). (k, json_dumps v)) kvs"
  by (induction kvs) auto

lemma canonical_list_map: "canonical_list xs = map canonical xs"
  by (induction xs) auto

lemma canonical_items_map: "canonical_items kvs = map (\<lambda>(k, v). (k, canonical v)) kvs"
  by (induction kvs) auto

lemma float_reprs_ok_list_all: "float_reprs_ok_list xs \<longleftrightarrow> (\<forall>x\<in>set xs. float_reprs_ok x)"
  by (induction xs) auto

lemma float_reprs_ok_items_all:
  "float_reprs_ok_items kvs \<longleftrightarrow> (\<forall>(k, v)\<in>set kvs. float_reprs_ok v)"
  by (induction kvs) auto

lemma join_with_Cons:
  "join_with sep (x # xs) = x @ (if xs = [] then [] else sep @ join_with sep xs)"
  by (cases xs) auto

lemma insort_key_map_fst:
  "(\<And>y. fst (f y) = fst y) \<Longrightarrow> insort_key fst (f x) (map f xs) = map f (insort_key fst x xs)"
  by (induction xs) auto

lemma sort_key_map_fst:
  "(\<And>y. fst (f y) = fst y) \<Longrightarrow> sort_key fst (map f xs) = map f (sort_key fst xs)"
  by (induction xs) (auto simp: insort_key_map_fst)

lemma list_inj:
  assumes "\<And>x v' r r'. x \<in> set xs \<Longrightarrow> float_reprs_ok x \<Longrightarrow> float_reprs_ok v'
      \<Longrightarrow> r = [] \<or> hd r \<in> {CHR '','', CHR '']'', CHR ''}''}
      \<Longrightarrow> r' = [] \<or> hd r' \<in> {CHR '','', CHR '']'', CHR ''}''}
      \<Longrightarrow> json_dumps x @ r = json_dumps v' @ r' \<Longrightarrow> canonical x = canonical v' \<and> r = r'"
    and "\<forall>x\<in>set xs. float_reprs_ok x" and "\<forall>y\<in>set ys. float_reprs_ok y"
    and "join_with '', '' (map json_dumps xs) @ CHR '']'' # r
           = join_with '', '' (map json_dumps ys) @ CHR '']'' # r'"
  shows "map canonical xs = map canonical ys \<and> r = r'"
  using assms
proof (induction xs arbitrary: ys)
  case Nil
  show ?case
  proof (cases ys)
    case Nil
    with Nil.prems show ?thesis by simp
  next
    case (Cons y ys')
    with Nil.prems(3) have "float_reprs_ok y" by simp
    from dumps_hd_no_delim [OF this] obtain c cs where
      "json_dumps y = c # cs" "c \<notin> {CHR '','', CHR '']'', CHR ''}''}" by blast
    with Nil.prems(4) Cons show ?thesis by (simp add: join_with_Cons)
  qed
next
  case (Cons x xs)
  show ?case
  proof (cases ys)
    case Nil
    from Cons.prems(2) have "float_reprs_ok x" by simp
    from dumps_hd_no_delim [OF this] obtain c cs where
      "json_dumps x = c # cs" "c \<notin> {CHR '','', CHR '']'', CHR ''}''}" by blast
    with Cons.prems(4) Nil show ?thesis by (simp add: join_with_Cons)
  next
    case ys: (Cons y ys')
    let ?tx = "(if xs = [] then [] else '', '' @ join_with '', '' (map json_dumps xs)) @ CHR '']'' # r"
    let ?ty = "(if ys' = [] then [] else '', '' @ join_with '', '' (map json_dumps ys')) @ CHR '']'' # r'"
    have okx: "float_reprs_ok x" and oky: "float_reprs_ok y"
      using Cons.prems(2,3) ys by simp_all
    have eq: "json_dumps x @ ?tx = json_dumps y @ ?ty"
      using Cons.prems(4) ys by (simp add: join_with_Cons)
    have tx: "?tx = [] \<or> hd ?tx \<in> {CHR '','', CHR '']'', CHR ''}''}" by simp
    have ty: "?ty = [] \<or> hd ?ty \<in> {CHR '','', CHR '']'', CHR ''}''}" by simp
    have "x \<in> set (x # xs)" by simp
    from Cons.prems(1) [OF this okx oky tx ty eq]
    have hd: "canonical x = canonical y" and tl: "?tx = ?ty" by blast+
    show ?thesis
    proof (cases "xs = []"; cases "ys' = []")
      assume "xs = []" "ys' = []"
      with tl hd ys show ?thesis by simp
    next
      assume "xs = []" "ys' \<noteq> []"
      with tl show ?thesis by simp
    next
      assume "xs \<noteq> []" "ys' = []"
      with tl show ?thesis by simp
    next
      assume "xs \<noteq> []" "ys' \<noteq> []"
      with tl have rest: "join_with '', '' (map json_dumps xs) @ CHR '']'' # r
           = join_with '', '' (map json_dumps ys') @ CHR '']'' # r'" by simp
      have "map canonical xs = map canonical ys' \<and> r = r'"
      proof (rule Cons.IH [OF _ _ _ rest])
        fix z v' r r'
        assume "z \<in> set xs" "float_reprs_ok z" "float_reprs_ok v'"
          "r = [] \<or> hd r \<in> {CHR '','', CHR '']'', CHR ''}''}"
          "r' = [] \<or> hd r' \<in> {CHR '','', CHR '']'', CHR ''}''}"
          "json_dumps z @ r = json_dumps v' @ r'"
        then show "canonical z = canonical v' \<and> r = r'"
          using Cons.prems(1) [of z v' r r'] by simp
      next
        show "\<forall>x\<in>set xs. float_reprs_ok x" using Cons.prems(2) by simp
        show "\<forall>y\<in>set ys'. float_reprs_ok y" using Cons.prems(3) ys by simp
      qed
      with hd ys show ?thesis by simp
    qed
  qed
qed

lemma items_inj:
  assumes "\<And>k x v' r r'. (k, x) \<in> set S \<Longrightarrow> float_reprs_ok x \<Longrightarrow> float_reprs_ok v'
      \<Longrightarrow> r = [] \<or> hd r \<in> {CHR '','', CHR '']'', CHR ''}''}
      \<Longrightarrow> r' = [] \<or> hd r' \<in> {CHR '','', CHR '']'', CHR ''}''}
      \<Longrightarrow> json_dumps x @ r = json_dumps v' @ r' \<Longrightarrow> canonical x = canonical v' \<and> r = r'"
    and "\<forall>(k, v)\<in>set S. float_reprs_ok v" and "\<forall>(k, v)\<in>set S'. float_reprs_ok v"
    and "join_with '', '' (map (\<lambda>(k, v). encode_basestring_ascii k @ '': '' @ json_dumps v) S)
             @ CHR ''}'' # r
           = join_with '', '' (map (\<lambda>(k, v). encode_basestring_ascii k @ '': '' @ json_dumps v) S')
             @ CHR ''}'' # r'"
  shows "map (\<lambda>(k, v). (k, canonical v)) S = map (\<lambda>(k, v). (k, canonical v)) S' \<and> r = r'"
  using assms
proof (induction S arbitrary: S')
  case Nil
  show ?case
  proof (cases S')
    case Nil
    with Nil.prems show ?thesis by simp
  next
    case (Cons p ps)
    with Nil.prems(4) show ?thesis
      by (cases p) (simp add: join_with_Cons encode_basestring_ascii_def)
  qed
next
  case (Cons p S)
  obtain k x where p: "p = (k, x)" by (cases p)
  show ?case
  proof (cases S')
    case Nil
    with Cons.prems(4) p show ?thesis
      by (simp add: join_with_Cons encode_basestring_ascii_def)
  next
    case S': (Cons q qs)
    obtain k' y where q: "q = (k', y)" by (cases q)
    let ?it = "\<lambda>(k, v). encode_basestring_ascii k @ '': '' @ json_dumps v"
    let ?tx = "(if S = [] then [] else '', '' @ join_with '', '' (map ?it S)) @ CHR ''}'' # r"
    let ?ty = "(if qs = [] then [] else '', '' @ join_with '', '' (map ?it qs)) @ CHR ''}'' # r'"
    have okx: "float_reprs_ok x" and oky: "float_reprs_ok y"
      using Cons.prems(2,3) S' p q by simp_all
    have "encode_basestring_ascii k @ ('': '' @ json_dumps x @ ?tx)
        = encode_basestring_ascii k' @ ('': '' @ json_dumps y @ ?ty)"
      using Cons.prems(4) S' p q by (simp add: join_with_Cons split del: if_split cong: if_cong)
    from encode_inj [OF this] have key: "k = k'" and eq: "json_dumps x @ ?tx = json_dumps y @ ?ty"
      by simp_all
    have tx: "?tx = [] \<or> hd ?tx \<in> {CHR '','', CHR '']'', CHR ''}''}" by simp
    have ty: "?ty = [] \<or> hd ?ty \<in> {CHR '','', CHR '']'', CHR ''}''}" by simp
    have "(k, x) \<in> set (p # S)" using p by simp
    from Cons.prems(1) [OF this okx oky tx ty eq]
    have hd: "canonical x = canonical y" and tl: "?tx = ?ty" by blast+
    show ?thesis
    proof (cases "S = []"; cases "qs = []")
      assume "S = []" "qs = []"
      with tl hd key S' p q show ?thesis by simp
    next
      assume "S = []" "qs \<noteq> []"
      with tl show ?thesis by simp
    next
      assume "S \<noteq> []" "qs = []"
      with tl show ?thesis by simp
    next
      assume "S \<noteq> []" "qs \<noteq> []"
      with tl have rest: "join_with '', '' (map ?it S) @ CHR ''}'' # r
           = join_with '', '' (map ?it qs) @ CHR ''}'' # r'" by simp
      have "map (\<lambda>(k, v). (k, canonical v)) S = map (\<lambda>(k, v). (k, canonical v)) qs \<and> r = r'"
      proof (rule Cons.IH [OF _ _ _ rest])
        fix k z v' r r'
        assume "(k, z) \<in> set S" "float_reprs_ok z" "float_reprs_ok v'"
          "r = [] \<or> hd r \<in> {CHR '','', CHR '']'', CHR ''}''}"
          "r' = [] \<or> hd r' \<in> {CHR '','', CHR '']'', CHR ''}''}"
          "json_dumps z @ r = json_dumps v' @ r'"
        then show "canonical z = canonical v' \<and> r = r'"
          using Cons.prems(1) [of k z v' r r'] by simp
      next
        show "\<forall>(k, v)\<in>set S. float_reprs_ok v" using Cons.prems(2) by simp
        show "\<forall>(k, v)\<in>set qs. float_reprs_ok v" using Cons.prems(3) S' by simp
      qed
      with hd key S' p q show ?thesis by simp
    qed
  qed
qed

lemma dumps_JObj:
  "json_dumps (JObj kvs) =
     CHR ''{'' # join_with '', ''
        (map (\<lambda>(k, v). encode_basestring_ascii k @ '': '' @ json_dumps v) (sort_key fst kvs))
      @ ''}''"
proof -
  have "sort_key fst (map (\<lambda>(k, v). (k, json_dumps v)) kvs)
      = map (\<lambda>(k, v). (k, json_dumps v)) (sort_key fst kvs)"
    by (rule sort_key_map_fst) auto
  then show ?thesis
    by (simp add: dumps_items_map split_def comp_def)
qed

lemma canonical_JObj:
  "canonical (JObj kvs) = JObj (map (\<lambda>(k, v). (k, canonical v)) (sort_key fst kvs))"
proof -
  have "sort_key fst (map (\<lambda>(k, v). (k, canonical v)) kvs)
      = map (\<lambda>(k, v). (k, canonical v)) (sort_key fst kvs)"
    by (rule sort_key_map_fst) auto
  then show ?thesis by (simp add: canonical_items_map)
qed

lemma dumps_inj_aux:
  "float_reprs_ok v \<Longrightarrow> float_reprs_ok v'
     \<Longrightarrow> r = [] \<or> hd r \<in> {CHR '','', CHR '']'', CHR ''}''}
     \<Longrightarrow> r' = [] \<or> hd r' \<in> {CHR '','', CHR '']'', CHR ''}''}
     \<Longrightarrow> json_dumps v @ r = json_dumps v' @ r' \<Longrightarrow> canonical v = canonical v' \<and> r = r'"
proof (induction v arbitrary: v' r r')
  case JNull
  from same_kind [OF JNull.prems] have "v' = JNull" by simp
  with JNull.prems show ?case by simp
next
  case (JBool b)
  from same_kind [OF JBool.prems] obtain b' where "v' = JBool b'" by auto
  with JBool.prems show ?case by (cases b; cases b') auto
next
  case (JInt i)
  from same_kind [OF JInt.prems] obtain j where j: "v' = JInt j" by auto
  have "\<forall>c\<in>set (show_int j). c \<notin> {CHR '','', CHR '']'', CHR ''}''}"
    using show_int_no_delim by fastforce
  from int_token [OF JInt.prems(3,4) this] JInt.prems(5) j
  have "show_int i = show_int j \<and> r = r'" by simp
  with show_int_inj j show ?case by auto
next
  case (JFloat s)
  from same_kind [OF JFloat.prems] obtain s' where s': "v' = JFloat s'" by auto
  with JFloat.prems have f: "float_repr s" "float_repr s'" by simp_all
  have "s = s' \<and> r = r'"
  proof (rule token_inj [where D = "{CHR '','', CHR '']'', CHR ''}''}"])
    show "\<forall>c\<in>set s. c \<notin> {CHR '','', CHR '']'', CHR ''}''}"
      using float_repr_no_delim [OF f(1)] by blast
    show "\<forall>c\<in>set s'. c \<notin> {CHR '','', CHR '']'', CHR ''}''}"
      using float_repr_no_delim [OF f(2)] by blast
    show "r = [] \<or> hd r \<in> {CHR '','', CHR '']'', CHR ''}''}" by (rule JFloat.prems(3))
    show "r' = [] \<or> hd r' \<in> {CHR '','', CHR '']'', CHR ''}''}" by (rule JFloat.prems(4))
    show "s @ r = s' @ r'" using JFloat.prems(5) s' by simp
  qed
  with s' show ?case by simp
next
  case (JStr s)
  from same_kind [OF JStr.prems] obtain s' where s': "v' = JStr s'" by auto
  with JStr.prems(5) have "encode_basestring_ascii s @ r = encode_basestring_ascii s' @ r'" by simp
  from encode_inj [OF this] s' show ?case by simp
next
  case (JArr xs)
  from same_kind [OF JArr.prems] obtain ys where ys: "v' = JArr ys" by auto
  have eq: "join_with '', '' (map json_dumps xs) @ CHR '']'' # r
           = join_with '', '' (map json_dumps ys) @ CHR '']'' # r'"
    using JArr.prems(5) ys by (simp add: dumps_list_map)
  have "map canonical xs = map canonical ys \<and> r = r'"
  proof (rule list_inj [OF _ _ _ eq])
    fix x v' r r'
    assume "x \<in> set xs" "float_reprs_ok x" "float_reprs_ok v'"
      "r = [] \<or> hd r \<in> {CHR '','', CHR '']'', CHR ''}''}"
      "r' = [] \<or> hd r' \<in> {CHR '','', CHR '']'', CHR ''}''}"
      "json_dumps x @ r = json_dumps v' @ r'"
    then show "canonical x = canonical v' \<and> r = r'" by (rule JArr.IH)
  next
    show "\<forall>x\<in>set xs. float_reprs_ok x"
      using JArr.prems(1) by (simp add: float_reprs_ok_list_all)
    show "\<forall>y\<in>set ys. float_reprs_ok y"
      using JArr.prems(2) ys by (simp add: float_reprs_ok_list_all)
  qed
  with ys show ?case by (simp add: canonical_list_map)
next
  case (JObj kvs)
  from same_kind [OF JObj.prems] obtain kvs' where kvs': "v' = JObj kvs'" by auto
  let ?it = "\<lambda>(k, v). encode_basestring_ascii k @ '': '' @ json_dumps v"
  have eq: "join_with '', '' (map ?it (sort_key fst kvs)) @ CHR ''}'' # r
           = join_with '', '' (map ?it (sort_key fst kvs')) @ CHR ''}'' # r'"
    using JObj.prems(5) unfolding kvs' dumps_JObj by simp
  have "map (\<lambda>(k, v). (k, canonical v)) (sort_key fst kvs)
          = map (\<lambda>(k, v). (k, canonical v)) (sort_key fst kvs') \<and> r = r'"
  proof (rule items_inj [OF _ _ _ eq])
    fix k x v' r r'
    assume in_S: "(k, x) \<in> set (sort_key fst kvs)" and rest: "float_reprs_ok x" "float_reprs_ok v'"
      "r = [] \<or> hd r \<in> {CHR '','', CHR '']'', CHR ''}''}"
      "r' = [] \<or> hd r' \<in> {CHR '','', CHR '']'', CHR ''}''}"
      "json_dumps x @ r = json_dumps v' @ r'"
    from in_S have "(k, x) \<in> set kvs" by simp
    moreover have "x \<in> Basic_BNFs.snds (k, x)" by simp
    ultimately show "canonical x = canonical v' \<and> r = r'" using rest by (rule JObj.IH)
  next
    show "\<forall>(k, v)\<in>set (sort_key fst kvs). float_reprs_ok v"
      using JObj.prems(1) by (simp add: float_reprs_ok_items_all)
    show "\<forall>(k, v)\<in>set (sort_key fst kvs'). float_reprs_ok v"
      using JObj.prems(2) kvs' by (simp add: float_reprs_ok_items_all)
  qed
  then show ?case unfolding kvs' canonical_JObj by simp
qed

lemma dumps_inj:
  assumes "float_reprs_ok v" "float_reprs_ok v'" "json_dumps v = json_dumps v'"
  shows "canonical v = canonical v'"
  using dumps_inj_aux [OF assms(1,2), of "[]" "[]"] assms(3) by simp

lemma sort_key_idem: "sort_key f (sort_key f xs) = sort_key f xs"
  by (rule sort_key_id_if_sorted) simp

lemma dumps_canonical: "json_dumps (canonical v) = json_dumps v"
proof (induction v)
  case (JArr xs)
  then have e: "map json_dumps (map canonical xs) = map json_dumps xs" by simp
  show ?case
    by (simp only: canonical.simps canonical_list_map json_dumps.simps dumps_list_map e)
next
  case (JObj kvs)
  let ?h = "\<lambda>(k, v). (k, canonical v)"
  let ?it = "\<lambda>(k, v). encode_basestring_ascii k @ '': '' @ json_dumps v"
  let ?S = "sort_key fst kvs"
  have "sort_key fst (map ?h ?S) = map ?h (sort_key fst ?S)"
    by (rule sort_key_map_fst) auto
  then have sorted: "sort_key fst (map ?h ?S) = map ?h ?S" by (simp only: sort_key_idem)
  have itp: "?it (?h p) = ?it p" if "p \<in> set ?S" for p
  proof -
    obtain k x where p: "p = (k, x)" by (cases p)
    with that have "(k, x) \<in> set kvs" by simp
    moreover have "x \<in> Basic_BNFs.snds (k, x)" by simp
    ultimately have "json_dumps (canonical x) = json_dumps x" by (rule JObj.IH)
    with p show ?thesis by simp
  qed
  have "map (?it \<circ> ?h) ?S = map ?it ?S"
  proof (rule map_cong [OF refl])
    fix p assume "p \<in> set ?S"
    from itp [OF this] show "(?it \<circ> ?h) p = ?it p" by (simp only: comp_apply)
  qed
  then have m: "map ?it (map ?h ?S) = map ?it ?S" by (simp only: map_map)
  show ?case unfolding canonical_JObj dumps_JObj sorted m by (rule refl)
qed simp_all

lemma dumps_eq_iff_canonical:
  assumes "float_reprs_ok v" "float_reprs_ok v'"
  shows "json_dumps v = json_dumps v' \<longleftrightarrow> canonical v = canonical v'"
proof
  assume "json_dumps v = json_dumps v'"
  with assms show "canonical v = canonical v'" by (rule dumps_inj)
next
  assume "canonical v = canonical v'"
  then have "json_dumps (canonical v) = json_dumps (canonical v')" by simp
  then show "json_dumps v = json_dumps v'" by (simp only: dumps_canonical)
qed

lemma same_row_iff_maps:
  assumes "distinct (map fst a)" "distinct (map fst b)"
  shows "same_row a b \<longleftrightarrow> (\<forall>k. map_option canonical (map_of a k) = map_option canonical (map_of b k))"
proof -
  let ?h = "\<lambda>(k, v). (k, canonical v)"
  let ?A = "map ?h (sort_key fst a)" and ?B = "map ?h (sort_key fst b)"
  have fstA: "map fst ?A = map fst (sort_key fst a)" and fstB: "map fst ?B = map fst (sort_key fst b)"
    by (simp_all add: comp_def split_def)
  have dA: "distinct (map fst ?A)" and dB: "distinct (map fst ?B)"
    using assms unfolding fstA fstB by (simp_all add: distinct_map)
  have sA: "sorted (map fst ?A)" and sB: "sorted (map fst ?B)"
    unfolding fstA fstB by simp_all
  have mA: "map_of ?A k = map_option canonical (map_of a k)" for k
  proof -
    have "map_of (sort_key fst a) = map_of a"
      using assms(1) by (intro map_of_inject_set [THEN iffD2]) (simp_all add: distinct_map)
    then show ?thesis by (simp add: map_of_map)
  qed
  have mB: "map_of ?B k = map_option canonical (map_of b k)" for k
  proof -
    have "map_of (sort_key fst b) = map_of b"
      using assms(2) by (intro map_of_inject_set [THEN iffD2]) (simp_all add: distinct_map)
    then show ?thesis by (simp add: map_of_map)
  qed
  have "?A = ?B \<longleftrightarrow> map_of ?A = map_of ?B"
  proof
    assume "map_of ?A = map_of ?B"
    with dA dB have set: "set ?A = set ?B" by (simp only: map_of_inject_set)
    from dA have "inj_on fst (set ?A)" by (simp only: distinct_map)
    with set have "inj_on fst (set ?A \<union> set ?B)" by simp
    from map_sorted_distinct_set_unique [OF this sA dA sB dB set] show "?A = ?B" .
  qed simp
  also have "\<dots> \<longleftrightarrow> (\<forall>k. map_option canonical (map_of a k) = map_option canonical (map_of b k))"
    unfolding fun_eq_iff mA mB ..
  finally show ?thesis by (simp only: same_row_def canonical_JObj json.inject)
qed

text \<open>
  C4. \<open>dedupe_rows\<close> keeps a row exactly when no row before it has the same key-sorted
  serialization: the result is a subsequence of the rows, holds no two rows with the
  same serialization, and deduplicating it again changes nothing. The serialization
  is the specification's equality: two rows whose floats are printed as \<open>repr\<close> prints
  them have the same serialization exactly when they have the same canonical form, and
  rows with distinct keys have the same canonical form exactly when every key has, in
  both rows or in neither, values with the same canonical form; the order of the keys
  plays no part. Values of different types are different: \<open>1\<close>, \<open>1.0\<close> and \<open>true\<close> are
  three values. \<open>dedupe_rows([{"a":1},{"a":1}])\<close> is \<open>[{"a":1}]\<close>.
\<close>

theorem dedupe_rows_first_occurrence:
  "dedupe_rows [] = []
   \<and> dedupe_rows (rs @ [r]) =
       (if \<exists>x\<in>set rs. json_dumps (JObj x) = json_dumps (JObj r)
        then dedupe_rows rs else dedupe_rows rs @ [r])
   \<and> subseq (dedupe_rows rs) rs
   \<and> distinct (map (\<lambda>x. json_dumps (JObj x)) (dedupe_rows rs))
   \<and> dedupe_rows (dedupe_rows rs) = dedupe_rows rs
   \<and> (float_reprs_ok (JObj a) \<and> float_reprs_ok (JObj b)
        \<longrightarrow> (json_dumps (JObj a) = json_dumps (JObj b) \<longleftrightarrow> same_row a b))
   \<and> (distinct (map fst a) \<and> distinct (map fst b)
        \<longrightarrow> (same_row a b \<longleftrightarrow>
              (\<forall>k. map_option canonical (map_of a k) = map_option canonical (map_of b k))))
   \<and> dedupe_rows [[(''a'', JInt 1)], [(''a'', JInt 1)]] = [[(''a'', JInt 1)]]"
proof (intro conjI impI)
  show "dedupe_rows [] = []" by (rule dedupe_rows_Nil)
  show "dedupe_rows (rs @ [r]) =
       (if \<exists>x\<in>set rs. json_dumps (JObj x) = json_dumps (JObj r)
        then dedupe_rows rs else dedupe_rows rs @ [r])"
  proof -
    have "json_dumps (JObj r) \<in> (\<lambda>x. json_dumps (JObj x)) ` set rs
        \<longleftrightarrow> (\<exists>x\<in>set rs. json_dumps (JObj x) = json_dumps (JObj r))"
      unfolding image_iff by (rule bex_cong [OF refl], rule eq_commute)
    then show ?thesis by (simp only: dedupe_rows_snoc)
  qed
  show "subseq (dedupe_rows rs) rs" by (rule dedupe_rows_subseq)
  show "distinct (map (\<lambda>x. json_dumps (JObj x)) (dedupe_rows rs))" by (rule dedupe_rows_distinct)
  show "dedupe_rows (dedupe_rows rs) = dedupe_rows rs" by (rule dedupe_rows_idem)
  show "json_dumps (JObj a) = json_dumps (JObj b) \<longleftrightarrow> same_row a b"
    if "float_reprs_ok (JObj a) \<and> float_reprs_ok (JObj b)"
    using that dumps_eq_iff_canonical [of "JObj a" "JObj b"] by (simp only: same_row_def)
  show "same_row a b \<longleftrightarrow>
              (\<forall>k. map_option canonical (map_of a k) = map_option canonical (map_of b k))"
    if "distinct (map fst a) \<and> distinct (map fst b)"
    using that same_row_iff_maps by blast
  show "dedupe_rows [[(''a'', JInt 1)], [(''a'', JInt 1)]] = [[(''a'', JInt 1)]]" by code_simp
qed

theorem dedupe_rows_first_occurrence_witness:
  "json_dumps (JObj [(''a'', JInt 1), (''b'', JObj [(''y'', JFloat ''1.5''), (''x'', JNull)])])
     = json_dumps (JObj [(''b'', JObj [(''x'', JNull), (''y'', JFloat ''1.5'')]), (''a'', JInt 1)])
   \<and> dedupe_rows ([[(''a'', JInt 1), (''b'', JObj [(''y'', JFloat ''1.5''), (''x'', JNull)])]]
        @ [[(''b'', JObj [(''x'', JNull), (''y'', JFloat ''1.5'')]), (''a'', JInt 1)]])
     = [[(''a'', JInt 1), (''b'', JObj [(''y'', JFloat ''1.5''), (''x'', JNull)])]]"
proof -
  let ?a = "[(''a'', JInt 1), (''b'', JObj [(''y'', JFloat ''1.5''), (''x'', JNull)])]"
  let ?b = "[(''b'', JObj [(''x'', JNull), (''y'', JFloat ''1.5'')]), (''a'', JInt 1)]"
  have ok: "float_reprs_ok (JObj ?a) \<and> float_reprs_ok (JObj ?b)" by code_simp
  have d: "distinct (map fst ?a) \<and> distinct (map fst ?b)" by simp
  have c: "canonical (JObj [(''y'', JFloat ''1.5''), (''x'', JNull)])
         = canonical (JObj [(''x'', JNull), (''y'', JFloat ''1.5'')])" by code_simp
  have m: "\<forall>k. map_option canonical (map_of ?a k) = map_option canonical (map_of ?b k)"
    using c by (simp del: canonical.simps)
  have one: "dedupe_rows [?a] = [?a]" by code_simp
  from dedupe_rows_first_occurrence [of "[?a]" ?b ?a ?b] ok d m one
  show ?thesis by (simp del: canonical.simps json_dumps.simps)
qed

end
